theory Spec2Isabelle
  imports Complex_Main
begin

section \<open>Values exchanged with the provider\<close>

text \<open>
  The program is \<^verbatim>\<open>strava.py\<close>. It talks to three things outside itself: the provider's
  HTTP endpoints, the operator's console and a few local files. The model makes all three
  explicit: replies and console lines are scripted in the state, files are fields of the
  state, and every request, sleep and call of the two token functions is appended to a
  trace.

  A decoded JSON document is a value of \<open>json\<close>. Python's \<^verbatim>\<open>float\<close> is modelled by
  \<open>real\<close>: rounding, overflow and the special values NaN and Infinity are not modelled.
  A Python \<^verbatim>\<open>dict\<close> is an association list read with \<open>map_of\<close>.
\<close>

datatype json =
  JNull
  | JBool bool
  | JInt int
  | JFloat real
  | JStr string
  | JArr "json list"
  | JObj "(string \<times> json) list"

text \<open>
  Exceptions are values. \<open>OutOfScript\<close> is not a Python exception: it marks a run that asks
  the scripted environment for a reply or a console line the script does not hold, so the
  script does not determine how the run goes on.
\<close>

datatype py_error =
  OutOfScript
  | ConnectionError
  | HTTPError int
  | JSONDecodeError
  | KeyError
  | TypeError
  | ValueError
  | AttributeError
  | OverflowError

text \<open>\<^verbatim>\<open>obj[key]\<close> with a string key: only a dict can be subscripted that way.\<close>

fun subscript :: "json \<Rightarrow> string \<Rightarrow> py_error + json" where
  "subscript (JObj kvs) k = (case map_of kvs k of None \<Rightarrow> Inl KeyError | Some v \<Rightarrow> Inr v)"
| "subscript _ k = Inl TypeError"

text \<open>\<^verbatim>\<open>obj.get(key, None)\<close>.\<close>

fun dict_get :: "json \<Rightarrow> string \<Rightarrow> py_error + json" where
  "dict_get (JObj kvs) k = Inr (case map_of kvs k of None \<Rightarrow> JNull | Some v \<Rightarrow> v)"
| "dict_get _ k = Inl AttributeError"

text \<open>The truth value Python gives a decoded JSON document (\<^verbatim>\<open>if not data\<close>).\<close>

fun truthy :: "json \<Rightarrow> bool" where
  "truthy JNull = False"
| "truthy (JBool b) = b"
| "truthy (JInt n) = (n \<noteq> 0)"
| "truthy (JFloat x) = (x \<noteq> 0)"
| "truthy (JStr s) = (s \<noteq> [])"
| "truthy (JArr xs) = (xs \<noteq> [])"
| "truthy (JObj kvs) = (kvs \<noteq> [])"

section \<open>Activity records\<close>

text \<open>
  The dict built at lines 142-149, with its six keys \<^verbatim>\<open>id\<close>, \<^verbatim>\<open>date\<close>, \<^verbatim>\<open>type\<close>,
  \<^verbatim>\<open>distance\<close>, \<^verbatim>\<open>suffer_score\<close> and \<^verbatim>\<open>average_heartrate\<close>.
\<close>

record activity =
  act_id :: json
  act_date :: json
  act_type :: json
  distance :: real
  suffer_score :: json
  average_heartrate :: json

definition METERS_PER_MILE :: real where
  "METERS_PER_MILE = 1609.34"

text \<open>
  Dividing an \<^verbatim>\<open>int\<close> by a \<^verbatim>\<open>float\<close> first converts the integer to a double, which
  raises OverflowError when the integer rounds to a value beyond the largest double:
  that is, when its absolute value is at least \<open>2 ^ 1024 - 2 ^ 970\<close>.
\<close>

definition fits_double :: "int \<Rightarrow> bool" where
  "fits_double n = (\<bar>n\<bar> < 2 ^ 1024 - 2 ^ 970)"

text \<open>
  \<^verbatim>\<open>activity['distance'] / 1609.34\<close>: the division is defined on numbers (\<^verbatim>\<open>bool\<close> is a
  subclass of \<^verbatim>\<open>int\<close>) and raises TypeError on anything else.
\<close>

fun to_miles :: "json \<Rightarrow> py_error + real" where
  "to_miles (JInt n) =
     (if fits_double n then Inr (of_int n / METERS_PER_MILE) else Inl OverflowError)"
| "to_miles (JFloat x) = Inr (x / METERS_PER_MILE)"
| "to_miles (JBool b) = Inr ((if b then 1 else 0) / METERS_PER_MILE)"
| "to_miles _ = Inl TypeError"

text \<open>The dict display of lines 142-149; its items are evaluated in the order written.\<close>

definition hike_record :: "json \<Rightarrow> py_error + activity" where
  "hike_record a =
     (case subscript a ''id'' of Inl e \<Rightarrow> Inl e | Inr i \<Rightarrow>
      (case subscript a ''start_date'' of Inl e \<Rightarrow> Inl e | Inr d \<Rightarrow>
       (case subscript a ''type'' of Inl e \<Rightarrow> Inl e | Inr t \<Rightarrow>
        (case subscript a ''distance'' of Inl e \<Rightarrow> Inl e | Inr m \<Rightarrow>
         (case to_miles m of Inl e \<Rightarrow> Inl e | Inr mi \<Rightarrow>
          (case dict_get a ''suffer_score'' of Inl e \<Rightarrow> Inl e | Inr s \<Rightarrow>
           (case dict_get a ''average_heartrate'' of Inl e \<Rightarrow> Inl e | Inr h \<Rightarrow>
              Inr \<lparr>act_id = i, act_date = d, act_type = t, distance = mi,
                   suffer_score = s, average_heartrate = h\<rparr>)))))))"

text \<open>
  The list comprehension of lines 141-151 over the elements of a list: the condition
  \<^verbatim>\<open>activity['type'] == 'Hike'\<close> is evaluated for every element, the dict display only for
  those that pass it.
\<close>

fun comprehension :: "json list \<Rightarrow> py_error + activity list" where
  "comprehension [] = Inr []"
| "comprehension (a # as) =
     (case subscript a ''type'' of
        Inl e \<Rightarrow> Inl e
      | Inr t \<Rightarrow>
          if t = JStr ''Hike'' then
            (case hike_record a of
               Inl e \<Rightarrow> Inl e
             | Inr r \<Rightarrow> (case comprehension as of Inl e \<Rightarrow> Inl e | Inr rs \<Rightarrow> Inr (r # rs)))
          else comprehension as)"

text \<open>
  The comprehension over a decoded document. Iterating a dict yields its keys and
  iterating a string its characters, which are strings and cannot be subscripted with
  \<^verbatim>\<open>'type'\<close>; the other values are not iterable.
\<close>

fun hiking_activities :: "json \<Rightarrow> py_error + activity list" where
  "hiking_activities (JArr xs) = comprehension xs"
| "hiking_activities (JObj kvs) = (if kvs = [] then Inr [] else Inl TypeError)"
| "hiking_activities (JStr s) = (if s = [] then Inr [] else Inl TypeError)"
| "hiking_activities _ = Inl TypeError"

section \<open>The environment\<close>

text \<open>
  What the program reads of an HTTP response: the status code, the
  \<^verbatim>\<open>X-RateLimit-Reset\<close> header and the decoded body. The header is classified by what
  \<^verbatim>\<open>int(response.headers.get('X-RateLimit-Reset', 0))\<close> makes of it: absent, a text that
  \<^verbatim>\<open>int\<close> reads as the given integer, or a text on which \<^verbatim>\<open>int\<close> raises ValueError. The
  body is \<open>None\<close> when \<^verbatim>\<open>response.json()\<close> raises.
\<close>

datatype reset_header = NoHeader | IntHeader int | BadHeader

record response =
  status_code :: int
  x_ratelimit_reset :: reset_header
  body :: "json option"

text \<open>A request either gets a response or fails in the network layer.\<close>

datatype reply = Response response | NetworkError

text \<open>The form a token request posts: an authorization code or a refresh token.\<close>

datatype grant = AuthorizationCode string | RefreshToken string

text \<open>
  The trace. \<open>HttpGet page tok r\<close> is a request for that page with \<^verbatim>\<open>Bearer tok\<close> in its
  Authorization header, answered by \<open>r\<close>; \<open>HttpPost g r\<close> is a token request;
  \<open>CallRefresh\<close> and \<open>CallReauthorize\<close> mark the entry into the two token functions.
\<close>

datatype event =
  CallRefresh
  | CallReauthorize
  | HttpPost grant reply
  | HttpGet int json reply
  | Sleep int

text \<open>
  What reading a snapshot file yields: the value the endpoint answers with, or the
  exception the reading raises.
\<close>

datatype readback = Reads json | Raises py_error

text \<open>
  The state: the global \<^verbatim>\<open>ACCESS_TOKEN\<close> (\<open>JNull\<close> is Python's \<^verbatim>\<open>None\<close>), the three files
  (\<open>None\<close> when the file does not exist), the clock as \<^verbatim>\<open>int(time.time())\<close> reads it, the
  scripted replies to \<^verbatim>\<open>requests.get\<close> and \<^verbatim>\<open>requests.post\<close>, the lines the operator
  will type, and the trace so far. A snapshot file is held as what its endpoint reads from
  it.
\<close>

record world =
  ACCESS_TOKEN :: json
  token_file :: "string option"
  json_file :: "readback option"
  csv_file :: "readback option"
  clock :: int
  gets :: "reply list"
  posts :: "reply list"
  inputs :: "string list"
  trace :: "event list"

definition log_event :: "event \<Rightarrow> world \<Rightarrow> world" where
  "log_event ev w = w\<lparr>trace := trace w @ [ev]\<rparr>"

text \<open>The state after a sleep of \<open>d\<close> seconds: the clock has moved on by \<open>d\<close>.\<close>

definition after_sleep :: "int \<Rightarrow> world \<Rightarrow> world" where
  "after_sleep d w = log_event (Sleep d) (w\<lparr>clock := clock w + d\<rparr>)"

text \<open>
  \<^verbatim>\<open>time.sleep(d)\<close> with an integer \<open>d\<close>. The delay is converted to a signed 64-bit count of
  nanoseconds: a negative delay raises ValueError, and a delay of more than
  \<open>(2 ^ 63 - 1) div 10 ^ 9 = 9223372036\<close> seconds raises OverflowError before any sleeping
  is done.
\<close>

definition MAX_SLEEP :: int where
  "MAX_SLEEP = 9223372036"

definition sleep :: "int \<Rightarrow> world \<Rightarrow> py_error + world" where
  "sleep d w =
     (if d < 0 then Inl ValueError
      else if MAX_SLEEP < d then Inl OverflowError
      else Inr (after_sleep d w))"

definition requests_post :: "grant \<Rightarrow> world \<Rightarrow> (py_error + response) \<times> world" where
  "requests_post g w =
     (case posts w of
        [] \<Rightarrow> (Inl OutOfScript, w)
      | rp # rest \<Rightarrow>
          (let w' = log_event (HttpPost g rp) (w\<lparr>posts := rest\<rparr>) in
           case rp of
             NetworkError \<Rightarrow> (Inl ConnectionError, w')
           | Response r \<Rightarrow> (Inr r, w')))"

definition requests_get :: "int \<Rightarrow> json \<Rightarrow> world \<Rightarrow> (py_error + response) \<times> world" where
  "requests_get page tok w =
     (case gets w of
        [] \<Rightarrow> (Inl OutOfScript, w)
      | rp # rest \<Rightarrow>
          (let w' = log_event (HttpGet page tok rp) (w\<lparr>gets := rest\<rparr>) in
           case rp of
             NetworkError \<Rightarrow> (Inl ConnectionError, w')
           | Response r \<Rightarrow> (Inr r, w')))"

text \<open>\<^verbatim>\<open>response.raise_for_status()\<close> raises HTTPError on a 4xx or 5xx status.\<close>

definition raise_for_status :: "response \<Rightarrow> py_error + unit" where
  "raise_for_status r =
     (if 400 \<le> status_code r \<and> status_code r < 600
      then Inl (HTTPError (status_code r)) else Inr ())"

section \<open>Token store\<close>

text \<open>
  \<^verbatim>\<open>str.strip()\<close> removes leading and trailing whitespace. Characters stand for code
  points below 256; these are the ones Python counts as whitespace.
\<close>

definition is_space :: "char \<Rightarrow> bool" where
  "is_space c = ((of_char c :: nat) \<in> {9, 10, 11, 12, 13, 28, 29, 30, 31, 32, 133, 160})"

definition strip :: "string \<Rightarrow> string" where
  "strip s = rev (dropWhile is_space (rev (dropWhile is_space s)))"

definition load_refresh_token :: "world \<Rightarrow> string option" where
  "load_refresh_token w = (case token_file w of None \<Rightarrow> None | Some s \<Rightarrow> Some (strip s))"

text \<open>
  \<^verbatim>\<open>open(REFRESH_TOKEN_FILE, 'w')\<close> empties the file before \<^verbatim>\<open>file.write(token)\<close> runs, and
  \<^verbatim>\<open>write\<close> raises TypeError on a token that is not a string.
\<close>

fun save_refresh_token :: "json \<Rightarrow> world \<Rightarrow> (py_error + unit) \<times> world" where
  "save_refresh_token (JStr s) w = (Inr (), w\<lparr>token_file := Some s\<rparr>)"
| "save_refresh_token _ w = (Inl TypeError, w\<lparr>token_file := Some []\<rparr>)"

section \<open>Auth client\<close>

text \<open>
  The three statements both token functions end with (lines 76-79 and 101-104): set the
  global from \<^verbatim>\<open>tokens['access_token']\<close>, save \<^verbatim>\<open>tokens['refresh_token']\<close>, return the
  global.
\<close>

definition accept_tokens :: "json \<Rightarrow> world \<Rightarrow> (py_error + json) \<times> world" where
  "accept_tokens tokens w =
     (case subscript tokens ''access_token'' of
        Inl e \<Rightarrow> (Inl e, w)
      | Inr tok \<Rightarrow>
          (let w1 = w\<lparr>ACCESS_TOKEN := tok\<rparr> in
           case subscript tokens ''refresh_token'' of
             Inl e \<Rightarrow> (Inl e, w1)
           | Inr rt \<Rightarrow>
               (case save_refresh_token rt w1 of
                  (Inl e, w2) \<Rightarrow> (Inl e, w2)
                | (Inr u, w2) \<Rightarrow> (Inr (ACCESS_TOKEN w2), w2))))"

definition reauthorize_app :: "world \<Rightarrow> (py_error + json) \<times> world" where
  "reauthorize_app w0 =
     (let w = log_event CallReauthorize w0 in
      case inputs w of
        [] \<Rightarrow> (Inl OutOfScript, w)
      | auth_code # rest \<Rightarrow>
          (case requests_post (AuthorizationCode auth_code) (w\<lparr>inputs := rest\<rparr>) of
             (Inl e, w1) \<Rightarrow> (Inl e, w1)
           | (Inr r, w1) \<Rightarrow>
               (case raise_for_status r of
                  Inl e \<Rightarrow> (Inl e, w1)
                | Inr u \<Rightarrow>
                    (case body r of
                       None \<Rightarrow> (Inl JSONDecodeError, w1)
                     | Some tokens \<Rightarrow> accept_tokens tokens w1))))"

definition refresh_access_token :: "world \<Rightarrow> (py_error + json) \<times> world" where
  "refresh_access_token w0 =
     (let w = log_event CallRefresh w0 in
      case load_refresh_token w of
        None \<Rightarrow> reauthorize_app w
      | Some refresh_token \<Rightarrow>
          if refresh_token = [] then reauthorize_app w
          else
            (case requests_post (RefreshToken refresh_token) w of
               (Inl e, w1) \<Rightarrow> (Inl e, w1)
             | (Inr r, w1) \<Rightarrow>
                 if status_code r \<noteq> 200 then reauthorize_app w1
                 else
                   (case body r of
                      None \<Rightarrow> (Inl JSONDecodeError, w1)
                    | Some tokens \<Rightarrow> accept_tokens tokens w1)))"

section \<open>Activity fetcher\<close>

definition max_pages :: int where
  "max_pages = 50"

definition FALLBACK_SLEEP :: int where
  "FALLBACK_SLEEP = 15 * 60"

text \<open>\<^verbatim>\<open>int(response.headers.get('X-RateLimit-Reset', 0))\<close>.\<close>

fun reset_time_of :: "reset_header \<Rightarrow> py_error + int" where
  "reset_time_of NoHeader = Inr 0"
| "reset_time_of (IntHeader t) = Inr t"
| "reset_time_of BadHeader = Inl ValueError"

text \<open>
  The \<^verbatim>\<open>while page <= max_pages\<close> loop of \<^verbatim>\<open>fetch_activities\<close>, with the loop's variables
  as arguments: the page, the token in \<^verbatim>\<open>headers\<close> and the list accumulated so far. Every
  pass takes one reply from the script, so the loop is a terminating recursion; a run the
  script does not cover ends in \<open>OutOfScript\<close>.
\<close>

function fetch_loop :: "int \<Rightarrow> json \<Rightarrow> activity list \<Rightarrow> world \<Rightarrow> (py_error + activity list) \<times> world" where
  "fetch_loop page hdr acc w =
     (if page \<le> max_pages then
        (case requests_get page hdr w of
           (Inl e, w1) \<Rightarrow> (Inl e, w1)
         | (Inr r, w1) \<Rightarrow>
             if status_code r = 429 then
               (case reset_time_of (x_ratelimit_reset r) of
                  Inl e \<Rightarrow> (Inl e, w1)
                | Inr reset_time \<Rightarrow>
                    (let wait_time = max (reset_time - clock w1) 0 in
                     case sleep (if wait_time \<noteq> 0 then wait_time else FALLBACK_SLEEP) w1 of
                       Inl e \<Rightarrow> (Inl e, w1)
                     | Inr w2 \<Rightarrow> fetch_loop page hdr acc w2))
             else if status_code r = 401 then
               (case refresh_access_token w1 of
                  (Inl e, w2) \<Rightarrow> (Inl e, w2)
                | (Inr tok, w2) \<Rightarrow> fetch_loop page tok acc (w2\<lparr>ACCESS_TOKEN := tok\<rparr>))
             else
               (case raise_for_status r of
                  Inl e \<Rightarrow> (Inl e, w1)
                | Inr u \<Rightarrow>
                    (case body r of
                       None \<Rightarrow> (Inl JSONDecodeError, w1)
                     | Some data \<Rightarrow>
                         if \<not> truthy data then (Inr acc, w1)
                         else
                           (case hiking_activities data of
                              Inl e \<Rightarrow> (Inl e, w1)
                            | Inr hs \<Rightarrow> fetch_loop (page + 1) hdr (acc @ hs) w1))))
      else (Inr acc, w))"
  by pat_completeness auto

text \<open>
  The token functions leave the script of page replies alone, which is what makes the
  loop terminate: every pass consumes one page reply.
\<close>

lemma save_refresh_token_gets: "save_refresh_token rt w = (res, w') \<Longrightarrow> gets w' = gets w"
  by (cases rt) auto

lemma accept_tokens_gets: "accept_tokens tokens w = (res, w') \<Longrightarrow> gets w' = gets w"
  by (auto simp: accept_tokens_def Let_def split: sum.splits prod.splits
      dest!: save_refresh_token_gets)

lemma requests_post_gets: "requests_post g w = (res, w') \<Longrightarrow> gets w' = gets w"
  by (auto simp: requests_post_def log_event_def Let_def split: list.splits reply.splits)

lemma reauthorize_app_gets: "reauthorize_app w = (res, w') \<Longrightarrow> gets w' = gets w"
  by (auto simp: reauthorize_app_def log_event_def Let_def
      split: list.splits sum.splits prod.splits option.splits
      dest!: requests_post_gets accept_tokens_gets)

lemma refresh_access_token_gets: "refresh_access_token w = (res, w') \<Longrightarrow> gets w' = gets w"
  by (auto simp: refresh_access_token_def log_event_def Let_def
      split: list.splits sum.splits prod.splits option.splits if_splits
      dest!: requests_post_gets accept_tokens_gets reauthorize_app_gets)

lemma requests_get_gets:
  "requests_get page tok w = (Inr r, w') \<Longrightarrow> gets w = Response r # gets w'"
  by (auto simp: requests_get_def log_event_def Let_def split: list.splits reply.splits)

lemma sleep_gets: "sleep d w = Inr w' \<Longrightarrow> gets w' = gets w"
  by (auto simp: sleep_def after_sleep_def log_event_def split: if_splits)

termination fetch_loop
  apply (relation "measure (\<lambda>(page, hdr, acc, w). length (gets w))")
     apply simp
    apply (auto dest!: requests_get_gets [OF sym] refresh_access_token_gets [OF sym]
      sleep_gets)
  done

declare fetch_loop.simps [simp del]

text \<open>
  \<^verbatim>\<open>fetch_activities\<close>: the loop starts at page 1 with the global token in the header and
  nothing accumulated. The \<^verbatim>\<open>after\<close> parameter goes to the provider unchanged and steers
  nothing in the program.
\<close>

definition fetch_activities :: "int \<Rightarrow> world \<Rightarrow> (py_error + activity list) \<times> world" where
  "fetch_activities after_timestamp w = fetch_loop 1 (ACCESS_TOKEN w) [] w"

section \<open>Snapshot writer and scheduler cycle\<close>

text \<open>
  The text formats of the \<^verbatim>\<open>json\<close> and \<^verbatim>\<open>csv\<close> modules are not modelled. What an
  endpoint reads back from a file the writer wrote is a parameter: \<open>json_readback\<close> for
  \<^verbatim>\<open>json.dump\<close> followed by \<^verbatim>\<open>json.load\<close>, \<open>csv_readback\<close> for \<^verbatim>\<open>csv.DictWriter\<close>
  followed by \<^verbatim>\<open>csv.DictReader\<close>.
\<close>

definition write_activities_to_csv ::
  "(activity list \<Rightarrow> readback) \<Rightarrow> activity list \<Rightarrow> world \<Rightarrow> world" where
  "write_activities_to_csv csv_readback activities w =
     w\<lparr>csv_file := Some (csv_readback activities)\<rparr>"

text \<open>
  The exceptions \<^verbatim>\<open>except requests.exceptions.RequestException\<close> catches: the network
  failure, the HTTPError of \<^verbatim>\<open>raise_for_status\<close>, and the decoding error of
  \<^verbatim>\<open>response.json()\<close> (a RequestException since requests 2.27).
\<close>

fun is_request_exception :: "py_error \<Rightarrow> bool" where
  "is_request_exception ConnectionError = True"
| "is_request_exception (HTTPError s) = True"
| "is_request_exception JSONDecodeError = True"
| "is_request_exception _ = False"

text \<open>
  The body of the \<^verbatim>\<open>try\<close> in \<^verbatim>\<open>main\<close>, up to and including the two snapshot writes
  (lines 198-215). \<open>after_timestamp\<close> is the value \<^verbatim>\<open>date_to_unix_timestamp\<close> gives the
  fixed start date in the process's time zone.
\<close>

definition main_try ::
  "(activity list \<Rightarrow> readback) \<Rightarrow> (activity list \<Rightarrow> readback) \<Rightarrow> int \<Rightarrow> world \<Rightarrow>
   (py_error + unit) \<times> world" where
  "main_try json_readback csv_readback after_timestamp w =
     (case refresh_access_token w of
        (Inl e, w1) \<Rightarrow> (Inl e, w1)
      | (Inr tok, w1) \<Rightarrow>
          (case fetch_activities after_timestamp (w1\<lparr>ACCESS_TOKEN := tok\<rparr>) of
             (Inl e, w2) \<Rightarrow> (Inl e, w2)
           | (Inr activities, w2) \<Rightarrow>
               (let w3 = w2\<lparr>json_file := Some (json_readback activities)\<rparr> in
                (Inr (), write_activities_to_csv csv_readback activities w3))))"

text \<open>
  How one call of \<^verbatim>\<open>main\<close> ends. \<open>Written\<close>: both snapshot files are written; the summary
  the source prints after that (lines 217-222) writes no file and is not modelled.
  \<open>Caught e\<close>: the \<^verbatim>\<open>except\<close> clause caught \<open>e\<close>, printed it, and \<^verbatim>\<open>main\<close> returned, so the
  scheduler loop goes on. \<open>Uncaught e\<close>: \<open>e\<close> leaves \<^verbatim>\<open>main\<close> and ends the loop that calls
  it. \<open>Blocked\<close>: the script ran out.
\<close>

datatype cycle = Written | Caught py_error | Uncaught py_error | Blocked

definition main ::
  "(activity list \<Rightarrow> readback) \<Rightarrow> (activity list \<Rightarrow> readback) \<Rightarrow> int \<Rightarrow> world \<Rightarrow>
   cycle \<times> world" where
  "main json_readback csv_readback after_timestamp w =
     (case main_try json_readback csv_readback after_timestamp w of
        (Inr u, w') \<Rightarrow> (Written, w')
      | (Inl e, w') \<Rightarrow>
          (if e = OutOfScript then Blocked
           else if is_request_exception e then Caught e
           else Uncaught e, w'))"

section \<open>Query service\<close>

text \<open>
  An endpoint answers with a JSON body and a status, or an exception leaves the handler
  (only FileNotFoundError is caught there).
\<close>

definition error_body :: "string \<Rightarrow> json" where
  "error_body msg = JObj [(''error'', JStr msg)]"

definition get_activities :: "world \<Rightarrow> py_error + json \<times> int" where
  "get_activities w =
     (case csv_file w of
        None \<Rightarrow> Inr (error_body ''Activities file not found.'', 404)
      | Some (Raises e) \<Rightarrow> Inl e
      | Some (Reads activities) \<Rightarrow> Inr (activities, 200))"

definition get_raw_activities :: "world \<Rightarrow> py_error + json \<times> int" where
  "get_raw_activities w =
     (case json_file w of
        None \<Rightarrow> Inr (error_body ''Raw activities file not found.'', 404)
      | Some (Raises e) \<Rightarrow> Inl e
      | Some (Reads activities) \<Rightarrow> Inr (activities, 200))"

section \<open>What the snapshot formats are documented to read back\<close>






section \<open>Reading the trace\<close>

text \<open>The events a run from \<open>w\<close> to \<open>w'\<close> added to the trace.\<close>

definition new_events :: "world \<Rightarrow> world \<Rightarrow> event list" where
  "new_events w w' = drop (length (trace w)) (trace w')"

fun is_get :: "event \<Rightarrow> bool" where
  "is_get (HttpGet page tok r) = True"
| "is_get _ = False"

text \<open>A token request that presents a refresh token.\<close>

fun is_refresh_post :: "event \<Rightarrow> bool" where
  "is_refresh_post (HttpPost (RefreshToken t) r) = True"
| "is_refresh_post _ = False"

text \<open>What a call of a token function may add after its own mark: token requests and
  the mark of \<^verbatim>\<open>reauthorize_app\<close>.\<close>

fun token_traffic :: "event \<Rightarrow> bool" where
  "token_traffic CallReauthorize = True"
| "token_traffic (HttpPost g r) = True"
| "token_traffic _ = False"

text \<open>The access token and the refresh token a token response carries.\<close>

fun issued :: "event \<Rightarrow> (json \<times> json) option" where
  "issued (HttpPost g (Response r)) =
     (case body r of
        None \<Rightarrow> None
      | Some tokens \<Rightarrow>
          (case subscript tokens ''access_token'' of
             Inl e \<Rightarrow> None
           | Inr tok \<Rightarrow>
               (case subscript tokens ''refresh_token'' of
                  Inl e \<Rightarrow> None
                | Inr rt \<Rightarrow> Some (tok, rt))))"
| "issued _ = None"

text \<open>
  A run from \<open>w\<close> to \<open>w'\<close> that returned \<open>tok\<close> ended with a token response that carries
  \<open>tok\<close> as its access token, and the refresh token of that response is what the token
  file now holds.
\<close>

definition stored_issue :: "world \<Rightarrow> world \<Rightarrow> json \<Rightarrow> bool" where
  "stored_issue w w' tok =
     (new_events w w' \<noteq> [] \<and>
      (case issued (last (new_events w w')) of
         None \<Rightarrow> False
       | Some (tok', rt) \<Rightarrow> tok' = tok \<and> ACCESS_TOKEN w' = tok \<and>
           (case rt of JStr s \<Rightarrow> token_file w' = Some s | _ \<Rightarrow> False)))"

text \<open>The state right after the next page reply has been taken from the script: what
  \<^verbatim>\<open>requests.get\<close> leaves behind.\<close>

definition got :: "int \<Rightarrow> json \<Rightarrow> world \<Rightarrow> world" where
  "got page hdr w = log_event (HttpGet page hdr (hd (gets w))) (w\<lparr>gets := tl (gets w)\<rparr>)"

text \<open>A page request answered with a status on which \<^verbatim>\<open>raise_for_status\<close> raises (4xx or
  5xx) and that the loop does not retry (neither 429 nor 401).\<close>

fun fatal_get :: "event \<Rightarrow> bool" where
  "fatal_get (HttpGet page tok (Response r)) =
     (400 \<le> status_code r \<and> status_code r < 600 \<and> status_code r \<noteq> 429 \<and> status_code r \<noteq> 401)"
| "fatal_get _ = False"

text \<open>A page request the loop takes as a page: answered with a status that is neither 429 nor
  401 nor an error, and a body that decodes. It yields the page number asked for and the
  decoded body.\<close>

fun page_of :: "event \<Rightarrow> (int \<times> json) option" where
  "page_of (HttpGet page tok (Response r)) =
     (if status_code r \<noteq> 429 \<and> status_code r \<noteq> 401 \<and> raise_for_status r = Inr ()
      then (case body r of None \<Rightarrow> None | Some data \<Rightarrow> Some (page, data))
      else None)"
| "page_of _ = None"

text \<open>The pages of a run, in the order they were served.\<close>

definition pages_served :: "event list \<Rightarrow> (int \<times> json) list" where
  "pages_served es = List.map_filter page_of es"

section \<open>Payloads and scripts the claims speak of\<close>

text \<open>The payloads the provider documents, and the record the specification expects for a
  hike: the fields carried over and the distance in meters divided by 1609.34. A distance
  is a number that Python can divide by a float.\<close>

fun is_number :: "json \<Rightarrow> bool" where
  "is_number (JInt n) = fits_double n"
| "is_number (JFloat x) = True"
| "is_number (JBool b) = True"
| "is_number _ = False"

fun number_value :: "json \<Rightarrow> real" where
  "number_value (JInt n) = of_int n"
| "number_value (JFloat x) = x"
| "number_value (JBool b) = (if b then 1 else 0)"
| "number_value _ = 0"

fun field :: "json \<Rightarrow> string \<Rightarrow> json" where
  "field (JObj kvs) k = (case map_of kvs k of None \<Rightarrow> JNull | Some v \<Rightarrow> v)"
| "field _ k = JNull"

definition is_hike :: "json \<Rightarrow> bool" where
  "is_hike a = (field a ''type'' = JStr ''Hike'')"

fun payload_ok :: "json \<Rightarrow> bool" where
  "payload_ok (JObj kvs) =
     (case map_of kvs ''type'' of
        None \<Rightarrow> False
      | Some t \<Rightarrow>
          if t = JStr ''Hike'' then
            map_of kvs ''id'' \<noteq> None \<and> map_of kvs ''start_date'' \<noteq> None \<and>
            (case map_of kvs ''distance'' of None \<Rightarrow> False | Some m \<Rightarrow> is_number m)
          else True)"
| "payload_ok _ = False"

definition expected_record :: "json \<Rightarrow> activity" where
  "expected_record a =
     \<lparr>act_id = field a ''id'', act_date = field a ''start_date'', act_type = JStr ''Hike'',
      distance = number_value (field a ''distance'') / 1609.34,
      suffer_score = field a ''suffer_score'',
      average_heartrate = field a ''average_heartrate''\<rparr>"

definition expected_hikes :: "json list \<Rightarrow> activity list" where
  "expected_hikes xs = map expected_record (filter is_hike xs)"












section \<open>The invariant of the page loop\<close>




section \<open>Sample runs\<close>

text \<open>A token response with the given pair of tokens.\<close>

definition token_response :: "string \<Rightarrow> string \<Rightarrow> response" where
  "token_response tok rt =
     \<lparr>status_code = 200, x_ratelimit_reset = NoHeader,
      body = Some (JObj [(''access_token'', JStr tok), (''refresh_token'', JStr rt)])\<rparr>"

text \<open>A first start: no token file yet, the operator types a code, the provider accepts it.\<close>

definition first_world :: world where
  "first_world =
     \<lparr>ACCESS_TOKEN = JNull, token_file = None, json_file = None, csv_file = None,
      clock = 1000, gets = [], posts = [Response (token_response ''a1'' ''r1'')],
      inputs = [''code''], trace = []\<rparr>"

text \<open>The same start with a token file that holds only a space and a line feed.\<close>

definition blank_file_world :: world where
  "blank_file_world = first_world\<lparr>token_file := Some [CHR '' '', CHR 0x0A]\<rparr>"

text \<open>A later start: the token file holds a refresh token and the provider accepts it.\<close>

definition renewal_world :: world where
  "renewal_world =
     first_world\<lparr>token_file := Some ''r0'', posts := [Response (token_response ''a2'' ''r2'')]\<rparr>"

text \<open>Sample replies and a sample state for the fetcher.\<close>

definition page_response :: "int \<Rightarrow> json \<Rightarrow> response" where
  "page_response status data =
     \<lparr>status_code = status, x_ratelimit_reset = NoHeader, body = Some data\<rparr>"


definition fetch_world :: "reply list \<Rightarrow> world" where
  "fetch_world rs =
     \<lparr>ACCESS_TOKEN = JStr ''a1'', token_file = Some ''r1'', json_file = None, csv_file = None,
      clock = 1000, gets = rs, posts = [Response (token_response ''a2'' ''r2'')],
      inputs = [], trace = []\<rparr>"

definition expired :: response where
  "expired = \<lparr>status_code = 401, x_ratelimit_reset = NoHeader, body = None\<rparr>"

text \<open>A page of the activity list, answered with status 200.\<close>

definition page_reply :: "json list \<Rightarrow> reply" where
  "page_reply xs = Response (page_response 200 (JArr xs))"

text \<open>The page of the specification's example: three activities, two of them hikes of
  1609.34 m and 3218.68 m.\<close>

definition example_page :: "json list" where
  "example_page =
     [JObj [(''id'', JInt 1), (''start_date'', JStr ''2025-03-01T10:00:00Z''),
            (''type'', JStr ''Hike''), (''distance'', JFloat 1609.34)],
      JObj [(''id'', JInt 2), (''start_date'', JStr ''2025-03-02T10:00:00Z''),
            (''type'', JStr ''Run''), (''distance'', JFloat 5000)],
      JObj [(''id'', JInt 3), (''start_date'', JStr ''2025-03-03T10:00:00Z''),
            (''type'', JStr ''Hike''), (''distance'', JFloat 3218.68),
            (''suffer_score'', JInt 12)]]"

text \<open>A cycle whose first page holds two hikes and whose second page request is answered
  with status 500.\<close>

definition failing_world :: world where
  "failing_world =
     fetch_world [page_reply example_page, Response (page_response 500 (JStr ''down''))]"

text \<open>A state in which only the CSV snapshot exists, with a header and no rows.\<close>

definition served_world :: world where
  "served_world = (fetch_world [])\<lparr>csv_file := Some (Reads (JArr []))\<rparr>"

text \<open>A state in which the JSON snapshot exists and holds a text \<^verbatim>\<open>json.load\<close> rejects, such as
  the empty file a reader sees right after \<^verbatim>\<open>open(..., 'w')\<close> truncated it.\<close>

definition truncated_world :: world where
  "truncated_world = (fetch_world [])\<lparr>json_file := Some (Raises JSONDecodeError)\<rparr>"




section \<open>Frame and trace lemmas\<close>

lemma token_traffic_not_get: "token_traffic ev \<Longrightarrow> \<not> is_get ev"
  by (cases ev) auto

lemma token_traffic_not_refresh: "token_traffic ev \<Longrightarrow> ev \<noteq> CallRefresh"
  by (cases ev) auto

lemma save_refresh_token_trace: "save_refresh_token rt w = (res, w') \<Longrightarrow> trace w' = trace w"
  by (cases rt) auto

lemma accept_tokens_trace: "accept_tokens tokens w = (res, w') \<Longrightarrow> trace w' = trace w"
  by (auto simp: accept_tokens_def Let_def split: sum.splits prod.splits
      dest!: save_refresh_token_trace)

lemma requests_post_trace:
  "requests_post g w = (res, w') \<Longrightarrow>
   trace w' = trace w \<or> (\<exists>r. trace w' = trace w @ [HttpPost g r])"
  by (auto simp: requests_post_def log_event_def Let_def split: list.splits reply.splits)

lemma reauthorize_app_trace:
  "reauthorize_app w = (res, w') \<Longrightarrow>
   \<exists>es. trace w' = trace w @ CallReauthorize # es \<and>
        (\<forall>ev\<in>set es. token_traffic ev \<and> \<not> is_refresh_post ev) \<and> CallReauthorize \<notin> set es"
  by (auto simp: reauthorize_app_def log_event_def Let_def
      split: list.splits sum.splits prod.splits option.splits
      dest!: requests_post_trace accept_tokens_trace)

lemma refresh_access_token_trace:
  "refresh_access_token w = (res, w') \<Longrightarrow>
   \<exists>es. trace w' = trace w @ CallRefresh # es \<and> (\<forall>ev\<in>set es. token_traffic ev)"
proof -
  assume run: "refresh_access_token w = (res, w')"
  let ?w = "log_event CallRefresh w"
  have start: "trace ?w = trace w @ [CallRefresh]"
    by (simp add: log_event_def)
  show ?thesis
  proof (cases "load_refresh_token ?w = None \<or> load_refresh_token ?w = Some []")
    case True
    then have "reauthorize_app ?w = (res, w')"
      using run by (auto simp: refresh_access_token_def Let_def)
    from reauthorize_app_trace [OF this] start show ?thesis
      by auto
  next
    case False
    then obtain t where t: "load_refresh_token ?w = Some t" "t \<noteq> []"
      by auto
    obtain pr w1 where post: "requests_post (RefreshToken t) ?w = (pr, w1)"
      by (cases "requests_post (RefreshToken t) ?w")
    from requests_post_trace [OF post] start
    have w1: "trace w1 = trace w @ [CallRefresh] \<or>
              (\<exists>r. trace w1 = trace w @ [CallRefresh, HttpPost (RefreshToken t) r])"
      by auto
    show ?thesis
    proof (cases pr)
      case (Inl e)
      then have "w' = w1"
        using run t post by (simp add: refresh_access_token_def Let_def)
      with w1 show ?thesis by auto
    next
      case (Inr r)
      show ?thesis
      proof (cases "status_code r \<noteq> 200")
        case True
        then have "reauthorize_app w1 = (res, w')"
          using run t post Inr by (simp add: refresh_access_token_def Let_def)
        from reauthorize_app_trace [OF this] w1 show ?thesis
          by auto
      next
        case False
        then have "trace w' = trace w1"
          using run t post Inr
          by (auto simp: refresh_access_token_def Let_def split: option.splits
              dest: accept_tokens_trace)
        with w1 show ?thesis by auto
      qed
    qed
  qed
qed

lemma new_events_append: "trace w' = trace w @ es \<Longrightarrow> new_events w w' = es"
  by (simp add: new_events_def)


lemma strip_decompose:
  "\<exists>pre suf. s = pre @ strip s @ suf \<and> (\<forall>c\<in>set pre. is_space c) \<and> (\<forall>c\<in>set suf. is_space c)"
proof -
  let ?d = "dropWhile is_space s"
  have "s = takeWhile is_space s @ ?d"
    by simp
  moreover have "rev ?d = takeWhile is_space (rev ?d) @ dropWhile is_space (rev ?d)"
    by simp
  then have "?d = strip s @ rev (takeWhile is_space (rev ?d))"
    unfolding strip_def by (metis rev_append rev_rev_ident)
  ultimately have "s = takeWhile is_space s @ strip s @ rev (takeWhile is_space (rev ?d))"
    by simp
  moreover have "\<forall>c\<in>set (takeWhile is_space s). is_space c"
    by (auto dest: set_takeWhileD)
  moreover have "\<forall>c\<in>set (rev (takeWhile is_space (rev ?d))). is_space c"
    by (auto dest: set_takeWhileD)
  ultimately show ?thesis
    by blast
qed

lemma strip_ends:
  assumes "strip s \<noteq> []"
  shows "\<not> is_space (hd (strip s)) \<and> \<not> is_space (last (strip s))"
proof -
  let ?d = "dropWhile is_space s"
  let ?e = "dropWhile is_space (rev ?d)"
  have e: "?e \<noteq> []"
    using assms by (simp add: strip_def)
  have d: "?d \<noteq> []"
  proof
    assume empty: "?d = []"
    have "?e = []" unfolding empty by simp
    with e show False by simp
  qed
  have "last (strip s) = hd ?e"
    using e by (simp add: strip_def last_rev)
  moreover have "\<not> is_space (hd ?e)"
    using e by (rule hd_dropWhile)
  moreover have "hd (strip s) = last ?e"
    using e by (simp add: strip_def hd_rev)
  moreover have "last ?e = last (rev ?d)"
    using e by (metis append_take_drop_id last_appendR takeWhile_dropWhile_id)
  moreover have "last (rev ?d) = hd ?d"
    using d by (simp add: last_rev)
  moreover have "\<not> is_space (hd ?d)"
    using d by (rule hd_dropWhile)
  ultimately show ?thesis
    by simp
qed


lemma save_refresh_token_ok:
  "save_refresh_token rt w = (Inr u, w') \<Longrightarrow>
   \<exists>s. rt = JStr s \<and> w' = w\<lparr>token_file := Some s\<rparr>"
  by (cases rt) auto

lemma accept_tokens_ok:
  assumes "accept_tokens tokens w = (Inr tok, w')"
  shows "\<exists>rt. subscript tokens ''access_token'' = Inr tok \<and>
              subscript tokens ''refresh_token'' = Inr (JStr rt) \<and>
              token_file w' = Some rt \<and> ACCESS_TOKEN w' = tok \<and> trace w' = trace w"
  using assms
  by (auto simp: accept_tokens_def Let_def split: sum.splits prod.splits
      dest!: save_refresh_token_ok)

lemma requests_post_ok:
  "requests_post g w = (Inr r, w') \<Longrightarrow> trace w' = trace w @ [HttpPost g (Response r)]"
  by (auto simp: requests_post_def log_event_def Let_def split: list.splits reply.splits)

lemma stored_issueI:
  assumes "trace w' = trace w @ es @ [HttpPost g (Response r)]"
    and "body r = Some tokens"
    and "subscript tokens ''access_token'' = Inr tok"
    and "subscript tokens ''refresh_token'' = Inr (JStr rt)"
    and "token_file w' = Some rt" and "ACCESS_TOKEN w' = tok"
  shows "stored_issue w w' tok"
proof -
  have "new_events w w' = es @ [HttpPost g (Response r)]"
    using assms(1) by (simp add: new_events_def)
  then show ?thesis
    using assms(2-) by (simp add: stored_issue_def)
qed

lemma reauthorize_app_ok:
  assumes "reauthorize_app w = (Inr tok, w')"
  shows "stored_issue w w' tok"
proof -
  let ?w = "log_event CallReauthorize w"
  from assms obtain code rest where ins: "inputs ?w = code # rest"
    by (auto simp: reauthorize_app_def Let_def split: list.splits)
  let ?w0 = "?w\<lparr>inputs := rest\<rparr>"
  from assms ins obtain r w1 where post: "requests_post (AuthorizationCode code) ?w0 = (Inr r, w1)"
    by (auto simp: reauthorize_app_def Let_def split: sum.splits prod.splits)
  from assms ins post obtain tokens where tokens: "body r = Some tokens"
      and acc: "accept_tokens tokens w1 = (Inr tok, w')"
    by (auto simp: reauthorize_app_def Let_def split: sum.splits option.splits)
  from requests_post_ok [OF post]
  have "trace w1 = trace w @ [CallReauthorize] @ [HttpPost (AuthorizationCode code) (Response r)]"
    by (simp add: log_event_def)
  with accept_tokens_ok [OF acc] tokens show ?thesis
    by (auto intro: stored_issueI)
qed

lemma refresh_access_token_ok:
  assumes "refresh_access_token w = (Inr tok, w')"
  shows "stored_issue w w' tok"
proof -
  let ?w = "log_event CallRefresh w"
  have start: "trace ?w = trace w @ [CallRefresh]"
    by (simp add: log_event_def)
  have via_reauthorize: "stored_issue w w' tok"
    if "reauthorize_app w1 = (Inr tok, w')" and "trace w1 = trace w @ es" for w1 es
  proof -
    from reauthorize_app_ok [OF that(1)] have "stored_issue w1 w' tok" .
    moreover from reauthorize_app_trace [OF that(1)] obtain es' where
      "trace w' = trace w1 @ CallReauthorize # es'"
      by blast
    ultimately show ?thesis
      using that(2) by (simp add: stored_issue_def new_events_def)
  qed
  show ?thesis
  proof (cases "load_refresh_token ?w = None \<or> load_refresh_token ?w = Some []")
    case True
    then have "reauthorize_app ?w = (Inr tok, w')"
      using assms by (auto simp: refresh_access_token_def Let_def)
    then show ?thesis
      using start by (rule via_reauthorize)
  next
    case False
    then obtain t where t: "load_refresh_token ?w = Some t" "t \<noteq> []"
      by auto
    from assms t obtain r w1 where post: "requests_post (RefreshToken t) ?w = (Inr r, w1)"
      by (auto simp: refresh_access_token_def Let_def split: sum.splits prod.splits)
    from requests_post_ok [OF post] start
    have w1: "trace w1 = trace w @ [CallRefresh] @ [HttpPost (RefreshToken t) (Response r)]"
      by simp
    show ?thesis
    proof (cases "status_code r \<noteq> 200")
      case True
      then have "reauthorize_app w1 = (Inr tok, w')"
        using assms t post by (simp add: refresh_access_token_def Let_def)
      then show ?thesis
        using w1 by (rule via_reauthorize)
    next
      case False
      with assms t post obtain tokens where tokens: "body r = Some tokens"
          and acc: "accept_tokens tokens w1 = (Inr tok, w')"
        by (auto simp: refresh_access_token_def Let_def split: option.splits)
      with accept_tokens_ok [OF acc] w1 show ?thesis
        by (auto intro: stored_issueI)
    qed
  qed
qed


lemma got_simps [simp]:
  "gets (got page hdr w) = tl (gets w)"
  "trace (got page hdr w) = trace w @ [HttpGet page hdr (hd (gets w))]"
  "clock (got page hdr w) = clock w"
  "posts (got page hdr w) = posts w"
  "inputs (got page hdr w) = inputs w"
  "json_file (got page hdr w) = json_file w"
  "csv_file (got page hdr w) = csv_file w"
  by (simp_all add: got_def log_event_def)

lemma after_sleep_simps [simp]:
  "gets (after_sleep d w) = gets w"
  "trace (after_sleep d w) = trace w @ [Sleep d]"
  "clock (after_sleep d w) = clock w + d"
  "posts (after_sleep d w) = posts w"
  "inputs (after_sleep d w) = inputs w"
  "json_file (after_sleep d w) = json_file w"
  "csv_file (after_sleep d w) = csv_file w"
  by (simp_all add: after_sleep_def log_event_def)

lemma requests_get_Nil: "gets w = [] \<Longrightarrow> requests_get page hdr w = (Inl OutOfScript, w)"
  by (simp add: requests_get_def)

lemma requests_get_Cons:
  "gets w = g # rest \<Longrightarrow>
   requests_get page hdr w =
     (case g of NetworkError \<Rightarrow> Inl ConnectionError | Response r \<Rightarrow> Inr r, got page hdr w)"
  by (simp add: requests_get_def got_def Let_def split: reply.splits)

lemma fetch_loop_done: "\<not> page \<le> max_pages \<Longrightarrow> fetch_loop page hdr acc w = (Inr acc, w)"
  by (subst fetch_loop.simps) simp

lemma fetch_loop_blocked:
  "page \<le> max_pages \<Longrightarrow> gets w = [] \<Longrightarrow> fetch_loop page hdr acc w = (Inl OutOfScript, w)"
  by (subst fetch_loop.simps) (simp add: requests_get_Nil)

lemma fetch_loop_network_error:
  "page \<le> max_pages \<Longrightarrow> gets w = NetworkError # rest \<Longrightarrow>
   fetch_loop page hdr acc w = (Inl ConnectionError, got page hdr w)"
  by (subst fetch_loop.simps) (simp add: requests_get_Cons)

lemma nap_positive:
  "0 < (if max (t - c) 0 \<noteq> 0 then max (t - c) 0 else FALLBACK_SLEEP)"
  by (simp add: FALLBACK_SLEEP_def max_def)

lemma fetch_loop_429_unreadable:
  assumes "page \<le> max_pages" and "gets w = Response r # rest" and "status_code r = 429"
    and "reset_time_of (x_ratelimit_reset r) = Inl e"
  shows "fetch_loop page hdr acc w = (Inl e, got page hdr w)"
  using assms by (subst fetch_loop.simps) (simp add: requests_get_Cons)

lemma sleep_overflow: "0 < d \<Longrightarrow> \<not> d \<le> MAX_SLEEP \<Longrightarrow> sleep d w = Inl OverflowError"
  by (simp add: sleep_def)

lemma sleep_done: "0 < d \<Longrightarrow> d \<le> MAX_SLEEP \<Longrightarrow> sleep d w = Inr (after_sleep d w)"
  by (simp add: sleep_def)

lemma fetch_loop_429_overflow:
  assumes "page \<le> max_pages" and "gets w = Response r # rest" and "status_code r = 429"
    and "reset_time_of (x_ratelimit_reset r) = Inr t"
    and "\<not> (if max (t - clock w) 0 \<noteq> 0 then max (t - clock w) 0 else FALLBACK_SLEEP) \<le> MAX_SLEEP"
  shows "fetch_loop page hdr acc w = (Inl OverflowError, got page hdr w)"
proof -
  define d where "d = (if max (t - clock w) 0 \<noteq> 0 then max (t - clock w) 0 else FALLBACK_SLEEP)"
  have "sleep d (got page hdr w) = Inl OverflowError"
    using assms(5) nap_positive [of t "clock w"] unfolding d_def by (rule_tac sleep_overflow)
  then show ?thesis
    using assms(1-4) unfolding d_def
    by (subst fetch_loop.simps)
      (simp add: requests_get_Cons Let_def split del: if_split cong: if_cong)
qed

lemma fetch_loop_429:
  assumes "page \<le> max_pages" and "gets w = Response r # rest" and "status_code r = 429"
    and "reset_time_of (x_ratelimit_reset r) = Inr t"
    and "(if max (t - clock w) 0 \<noteq> 0 then max (t - clock w) 0 else FALLBACK_SLEEP) \<le> MAX_SLEEP"
  shows "fetch_loop page hdr acc w =
     fetch_loop page hdr acc
       (after_sleep (if max (t - clock w) 0 \<noteq> 0 then max (t - clock w) 0 else FALLBACK_SLEEP)
          (got page hdr w))"
proof -
  define d where "d = (if max (t - clock w) 0 \<noteq> 0 then max (t - clock w) 0 else FALLBACK_SLEEP)"
  have "sleep d (got page hdr w) = Inr (after_sleep d (got page hdr w))"
    using assms(5) nap_positive [of t "clock w"] unfolding d_def by (rule_tac sleep_done)
  then show ?thesis
    using assms(1-4) unfolding d_def
    by (subst fetch_loop.simps)
      (simp add: requests_get_Cons Let_def split del: if_split cong: if_cong)
qed

lemma fetch_loop_429_cases [consumes 3, case_names raised slept]:
  assumes "page \<le> max_pages" and "gets w = Response r # rest" and "status_code r = 429"
  obtains e where "fetch_loop page hdr acc w = (Inl e, got page hdr w)"
      and "e = ValueError \<or> e = OverflowError"
    | t where "reset_time_of (x_ratelimit_reset r) = Inr t"
      and "(if max (t - clock w) 0 \<noteq> 0 then max (t - clock w) 0 else FALLBACK_SLEEP) \<le> MAX_SLEEP"
      and "fetch_loop page hdr acc w =
        fetch_loop page hdr acc
          (after_sleep (if max (t - clock w) 0 \<noteq> 0 then max (t - clock w) 0 else FALLBACK_SLEEP)
             (got page hdr w))"
proof (cases "reset_time_of (x_ratelimit_reset r)")
  case (Inl e)
  then have "e = ValueError"
    by (cases "x_ratelimit_reset r") simp_all
  with fetch_loop_429_unreadable [OF assms Inl] that(1) show ?thesis
    by blast
next
  case (Inr t)
  show ?thesis
  proof (cases "(if max (t - clock w) 0 \<noteq> 0 then max (t - clock w) 0 else FALLBACK_SLEEP)
      \<le> MAX_SLEEP")
    case True
    from that(2) [OF Inr True fetch_loop_429 [OF assms Inr True]] show ?thesis .
  next
    case False
    from that(1) [OF fetch_loop_429_overflow [OF assms Inr False]] show ?thesis
      by simp
  qed
qed

lemma fetch_loop_401:
  assumes "page \<le> max_pages" and "gets w = Response r # rest" and "status_code r = 401"
  shows "fetch_loop page hdr acc w =
     (case refresh_access_token (got page hdr w) of
        (Inl e, w2) \<Rightarrow> (Inl e, w2)
      | (Inr tok, w2) \<Rightarrow> fetch_loop page tok acc (w2\<lparr>ACCESS_TOKEN := tok\<rparr>))"
  using assms by (subst fetch_loop.simps) (simp add: requests_get_Cons)

lemma fetch_loop_page:
  assumes "page \<le> max_pages" and "gets w = Response r # rest"
    and "status_code r \<noteq> 429" and "status_code r \<noteq> 401"
  shows "fetch_loop page hdr acc w =
     (case raise_for_status r of
        Inl e \<Rightarrow> (Inl e, got page hdr w)
      | Inr u \<Rightarrow>
          (case body r of
             None \<Rightarrow> (Inl JSONDecodeError, got page hdr w)
           | Some data \<Rightarrow>
               if \<not> truthy data then (Inr acc, got page hdr w)
               else
                 (case hiking_activities data of
                    Inl e \<Rightarrow> (Inl e, got page hdr w)
                  | Inr hs \<Rightarrow> fetch_loop (page + 1) hdr (acc @ hs) (got page hdr w))))"
  using assms by (subst fetch_loop.simps) (simp add: requests_get_Cons)

lemma fetch_loop_trace:
  "\<exists>es. trace (snd (fetch_loop page hdr acc w)) = trace w @ es"
proof (induction "gets w" arbitrary: page hdr acc w)
  case Nil
  then have "gets w = []" by simp
  then show ?case
    by (cases "page \<le> max_pages") (simp_all add: fetch_loop_done fetch_loop_blocked)
next
  case (Cons g rest)
  note gs = Cons.hyps(2) [symmetric]
  have rest: "rest = gets (got page hdr w)"
    using gs by simp
  show ?case
  proof (cases "page \<le> max_pages")
    case False
    then show ?thesis by (simp add: fetch_loop_done)
  next
    case True
    show ?thesis
    proof (cases g)
      case NetworkError
      then show ?thesis
        using True gs by (simp add: fetch_loop_network_error)
    next
      case (Response r)
      consider "status_code r = 429" | "status_code r = 401"
        | "status_code r \<noteq> 429" "status_code r \<noteq> 401"
        by blast
      then show ?thesis
      proof cases
        case 1
        have gs': "gets w = Response r # rest"
          using gs Response by simp
        from True gs' 1 show ?thesis
        proof (cases rule: fetch_loop_429_cases [where hdr = hdr and acc = acc])
          case (raised e)
          then show ?thesis
            using gs' by simp
        next
          case (slept t)
          let ?w = "after_sleep (if max (t - clock w) 0 \<noteq> 0 then max (t - clock w) 0
                           else FALLBACK_SLEEP) (got page hdr w)"
          have "rest = gets ?w" using rest by simp
          from Cons.hyps(1) [OF this, of page hdr acc] obtain es where
            "trace (snd (fetch_loop page hdr acc ?w)) = trace ?w @ es" by blast
          then show ?thesis
            unfolding slept(3) using gs' by simp
        qed
      next
        case 2
        obtain res w2 where run: "refresh_access_token (got page hdr w) = (res, w2)"
          by (cases "refresh_access_token (got page hdr w)")
        from refresh_access_token_trace [OF run] obtain es where
          es: "trace w2 = trace (got page hdr w) @ CallRefresh # es" by blast
        show ?thesis
        proof (cases res)
          case (Inl e)
          then show ?thesis
            using True gs Response 2 run es by (simp add: fetch_loop_401)
        next
          case (Inr tok)
          let ?w = "w2\<lparr>ACCESS_TOKEN := tok\<rparr>"
          have "rest = gets ?w"
            using rest refresh_access_token_gets [OF run] by simp
          from Cons.hyps(1) [OF this, of page tok acc] obtain es' where
            "trace (snd (fetch_loop page tok acc ?w)) = trace ?w @ es'" by blast
          then show ?thesis
            using True gs Response 2 run es Inr by (simp add: fetch_loop_401)
        qed
      next
        case 3
        from Cons.hyps(1) [OF rest] have
          "\<exists>es. trace (snd (fetch_loop (page + 1) hdr acc' (got page hdr w))) =
                trace (got page hdr w) @ es" for acc'
          by blast
        then show ?thesis
          using True gs Response 3
          by (auto simp: fetch_loop_page split: sum.splits option.splits)
      qed
    qed
  qed
qed

lemma fetch_loop_first_event:
  assumes "page \<le> max_pages" and "gets w = g # rest"
  shows "\<exists>es. trace (snd (fetch_loop page hdr acc w)) = trace w @ HttpGet page hdr g # es"
proof -
  have after: "\<exists>es. trace w1 = trace w @ HttpGet page hdr g # es"
    if "trace w1 = trace (got page hdr w) @ es'" for w1 es'
    using that assms(2) by simp
  have rec: "\<exists>es. trace (snd (fetch_loop p h a w1)) = trace w @ HttpGet page hdr g # es"
    if "trace w1 = trace (got page hdr w) @ es'" for p h a w1 es'
  proof -
    from fetch_loop_trace [of p h a w1] obtain es where
      "trace (snd (fetch_loop p h a w1)) = trace w1 @ es" by blast
    with that have "trace (snd (fetch_loop p h a w1)) = trace (got page hdr w) @ es' @ es"
      by simp
    then show ?thesis by (rule after)
  qed
  show ?thesis
  proof (cases g)
    case NetworkError
    then show ?thesis
      using assms by (simp add: fetch_loop_network_error)
  next
    case (Response r)
    consider "status_code r = 429" | "status_code r = 401"
      | "status_code r \<noteq> 429" "status_code r \<noteq> 401"
      by blast
    then show ?thesis
    proof cases
      case 1
      have gs': "gets w = Response r # rest"
        using assms(2) Response by simp
      from assms(1) gs' 1 show ?thesis
      proof (cases rule: fetch_loop_429_cases [where hdr = hdr and acc = acc])
        case (raised e)
        then show ?thesis
          using gs' Response by simp
      next
        case (slept t)
        let ?d = "if max (t - clock w) 0 \<noteq> 0 then max (t - clock w) 0 else FALLBACK_SLEEP"
        have "trace (after_sleep ?d (got page hdr w)) = trace (got page hdr w) @ [Sleep ?d]"
          by simp
        from rec [OF this] show ?thesis
          unfolding slept(3) .
      qed
    next
      case 2
      obtain res w2 where run: "refresh_access_token (got page hdr w) = (res, w2)"
        by (cases "refresh_access_token (got page hdr w)")
      from refresh_access_token_trace [OF run] obtain es where
        es: "trace w2 = trace (got page hdr w) @ CallRefresh # es" by blast
      show ?thesis
      proof (cases res)
        case (Inl e)
        then show ?thesis
          using assms Response 2 run after [OF es] by (simp add: fetch_loop_401)
      next
        case (Inr tok)
        have "trace (w2\<lparr>ACCESS_TOKEN := tok\<rparr>) = trace (got page hdr w) @ CallRefresh # es"
          using es by simp
        from rec [OF this] show ?thesis
          using assms Response 2 run Inr by (simp add: fetch_loop_401)
      qed
    next
      case 3
      have here: "trace (got page hdr w) = trace (got page hdr w) @ []"
        by simp
      show ?thesis
        using assms Response 3 after [OF here] rec [OF here]
        by (auto simp: fetch_loop_page split: sum.splits option.splits)
    qed
  qed
qed

lemma new_events_Nil: "trace w = [] \<Longrightarrow> new_events w w' = trace w'"
  by (simp add: new_events_def)

lemma to_miles_number: "is_number m \<Longrightarrow> to_miles m = Inr (number_value m / 1609.34)"
  by (cases m) (simp_all add: METERS_PER_MILE_def)

lemma hike_record_ok:
  assumes "payload_ok a" and "is_hike a"
  shows "hike_record a = Inr (expected_record a)"
proof -
  from assms(1) obtain kvs where a: "a = JObj kvs"
    by (cases a) simp_all
  from assms a obtain i d m where
    "map_of kvs ''type'' = Some (JStr ''Hike'')" "map_of kvs ''id'' = Some i"
    "map_of kvs ''start_date'' = Some d" "map_of kvs ''distance'' = Some m" "is_number m"
    by (auto simp: is_hike_def split: option.splits if_splits)
  then show ?thesis
    by (simp add: a hike_record_def expected_record_def to_miles_number)
qed

lemma payload_type:
  assumes "payload_ok a"
  shows "subscript a ''type'' = Inr (field a ''type'')"
  using assms by (cases a) (auto split: option.splits)

lemma comprehension_ok:
  "\<forall>a\<in>set xs. payload_ok a \<Longrightarrow> comprehension xs = Inr (expected_hikes xs)"
proof (induction xs)
  case Nil
  then show ?case by (simp add: expected_hikes_def)
next
  case (Cons a xs)
  then have ok: "payload_ok a" and rest: "comprehension xs = Inr (expected_hikes xs)"
    by simp_all
  show ?case
  proof (cases "is_hike a")
    case True
    then show ?thesis
      using ok rest hike_record_ok [OF ok True]
      by (simp add: payload_type is_hike_def expected_hikes_def)
  next
    case False
    then show ?thesis
      using ok rest by (simp add: payload_type is_hike_def expected_hikes_def)
  qed
qed

lemma fetch_loop_full_pages:
  assumes "gets w = map page_reply pages @ rest"
    and "page + int (length pages) \<le> max_pages + 1"
    and "\<forall>xs\<in>set pages. xs \<noteq> [] \<and> (\<forall>a\<in>set xs. payload_ok a)"
  shows "\<exists>w'. fetch_loop page hdr acc w =
           fetch_loop (page + int (length pages)) hdr
             (acc @ concat (map expected_hikes pages)) w' \<and> gets w' = rest"
  using assms
proof (induction pages arbitrary: page acc w)
  case Nil
  then have "fetch_loop page hdr acc w = fetch_loop page hdr acc w \<and> gets w = rest"
    by simp
  then show ?case by auto
next
  case (Cons xs pages)
  let ?w = "got page hdr w"
  have gs: "gets w = Response (page_response 200 (JArr xs)) # map page_reply pages @ rest"
    using Cons.prems(1) by (simp add: page_reply_def)
  have page: "page \<le> max_pages"
    using Cons.prems(2) by simp
  have xs: "xs \<noteq> []" "comprehension xs = Inr (expected_hikes xs)"
    using Cons.prems(3) by (simp_all add: comprehension_ok)
  have step: "fetch_loop page hdr acc w = fetch_loop (page + 1) hdr (acc @ expected_hikes xs) ?w"
    using xs by (simp add: fetch_loop_page [OF page gs] page_response_def raise_for_status_def)
  have "gets ?w = map page_reply pages @ rest"
    using gs by simp
  moreover have "page + 1 + int (length pages) \<le> max_pages + 1"
    using Cons.prems(2) by simp
  moreover have "\<forall>xs\<in>set pages. xs \<noteq> [] \<and> (\<forall>a\<in>set xs. payload_ok a)"
    using Cons.prems(3) by simp
  ultimately obtain w' where
    "fetch_loop (page + 1) hdr (acc @ expected_hikes xs) ?w =
       fetch_loop (page + 1 + int (length pages)) hdr
         ((acc @ expected_hikes xs) @ concat (map expected_hikes pages)) w' \<and> gets w' = rest"
    using Cons.IH by blast
  then have "fetch_loop page hdr acc w =
      fetch_loop (page + int (length (xs # pages))) hdr
        (acc @ concat (map expected_hikes (xs # pages))) w' \<and> gets w' = rest"
    using step by (simp add: algebra_simps)
  then show ?case by blast
qed

lemma token_traffic_not_fatal: "token_traffic ev \<Longrightarrow> \<not> fatal_get ev"
  by (cases ev) auto

lemma save_refresh_token_files:
  "save_refresh_token rt w = (res, w') \<Longrightarrow>
   json_file w' = json_file w \<and> csv_file w' = csv_file w"
  by (cases rt) auto

lemma accept_tokens_files:
  "accept_tokens tokens w = (res, w') \<Longrightarrow>
   json_file w' = json_file w \<and> csv_file w' = csv_file w"
  by (auto simp: accept_tokens_def Let_def split: sum.splits prod.splits
      dest!: save_refresh_token_files)

lemma requests_post_files:
  "requests_post g w = (res, w') \<Longrightarrow>
   json_file w' = json_file w \<and> csv_file w' = csv_file w"
  by (auto simp: requests_post_def log_event_def Let_def split: list.splits reply.splits)

lemma reauthorize_app_files:
  "reauthorize_app w = (res, w') \<Longrightarrow>
   json_file w' = json_file w \<and> csv_file w' = csv_file w"
  by (auto simp: reauthorize_app_def log_event_def Let_def
      split: list.splits sum.splits prod.splits option.splits
      dest!: requests_post_files accept_tokens_files)

lemma refresh_access_token_files:
  "refresh_access_token w = (res, w') \<Longrightarrow>
   json_file w' = json_file w \<and> csv_file w' = csv_file w"
  by (auto simp: refresh_access_token_def log_event_def Let_def
      split: list.splits sum.splits prod.splits option.splits if_splits
      dest!: requests_post_files accept_tokens_files reauthorize_app_files)

lemma fetch_loop_fatal:
  "\<exists>es. trace (snd (fetch_loop page hdr acc w)) = trace w @ es \<and>
        json_file (snd (fetch_loop page hdr acc w)) = json_file w \<and>
        csv_file (snd (fetch_loop page hdr acc w)) = csv_file w \<and>
        (list_ex fatal_get es \<longrightarrow> (\<exists>s. fst (fetch_loop page hdr acc w) = Inl (HTTPError s)))"
proof (induction "gets w" arbitrary: page hdr acc w)
  case Nil
  then have "gets w = []" by simp
  then show ?case
    by (cases "page \<le> max_pages") (simp_all add: fetch_loop_done fetch_loop_blocked)
next
  case (Cons g rest)
  note gs = Cons.hyps(2) [symmetric]
  have rest: "rest = gets (got page hdr w)"
    using gs by simp
  have first: "trace (got page hdr w) = trace w @ [HttpGet page hdr g]"
    using gs by simp
  show ?case
  proof (cases "page \<le> max_pages")
    case False
    then show ?thesis by (simp add: fetch_loop_done)
  next
    case True
    show ?thesis
    proof (cases g)
      case NetworkError
      then show ?thesis
        using True gs by (simp add: fetch_loop_network_error)
    next
      case (Response r)
      consider "status_code r = 429" | "status_code r = 401"
        | "status_code r \<noteq> 429" "status_code r \<noteq> 401"
        by blast
      then show ?thesis
      proof cases
        case 1
        have gs': "gets w = Response r # rest"
          using gs Response by simp
        from True gs' 1 show ?thesis
        proof (cases rule: fetch_loop_429_cases [where hdr = hdr and acc = acc])
          case (raised e)
          then show ?thesis
            using gs' 1 by auto
        next
          case (slept t)
          let ?d = "if max (t - clock w) 0 \<noteq> 0 then max (t - clock w) 0 else FALLBACK_SLEEP"
          let ?w = "after_sleep ?d (got page hdr w)"
          let ?run = "fetch_loop page hdr acc ?w"
          have "rest = gets ?w" using rest by simp
          from Cons.hyps(1) [OF this, of page hdr acc] obtain es where
            es: "trace (snd ?run) = trace ?w @ es"
              "json_file (snd ?run) = json_file ?w" "csv_file (snd ?run) = csv_file ?w"
              "list_ex fatal_get es \<longrightarrow> (\<exists>s. fst ?run = Inl (HTTPError s))"
            by blast
          have step: "fetch_loop page hdr acc w = ?run"
            by (rule slept(3))
          have "trace (snd ?run) = trace w @ (HttpGet page hdr g # Sleep ?d # es)"
            using es(1) first by simp
          moreover have "list_ex fatal_get (HttpGet page hdr g # Sleep ?d # es) = list_ex fatal_get es"
            using Response 1 by simp
          ultimately show ?thesis
            unfolding step using es(2-4) by (metis got_simps(6,7) after_sleep_simps(6,7))
        qed
      next
        case 2
        obtain res w2 where run: "refresh_access_token (got page hdr w) = (res, w2)"
          by (cases "refresh_access_token (got page hdr w)")
        from refresh_access_token_trace [OF run] obtain mid where
          mid: "trace w2 = trace (got page hdr w) @ CallRefresh # mid"
            "\<forall>ev\<in>set mid. token_traffic ev" by blast
        have quiet: "\<not> list_ex fatal_get (HttpGet page hdr g # CallRefresh # mid)"
          using Response 2 mid(2) token_traffic_not_fatal by (auto simp: list_ex_iff)
        have files: "json_file w2 = json_file w" "csv_file w2 = csv_file w"
          using refresh_access_token_files [OF run] by simp_all
        show ?thesis
        proof (cases res)
          case (Inl e)
          then have "fetch_loop page hdr acc w = (Inl e, w2)"
            using True gs Response 2 run by (simp add: fetch_loop_401)
          moreover have "trace w2 = trace w @ (HttpGet page hdr g # CallRefresh # mid)"
            using mid(1) first by simp
          ultimately show ?thesis
            using quiet files by (metis fst_conv snd_conv)
        next
          case (Inr tok)
          let ?w = "w2\<lparr>ACCESS_TOKEN := tok\<rparr>"
          let ?run = "fetch_loop page tok acc ?w"
          have "rest = gets ?w"
            using rest refresh_access_token_gets [OF run] by simp
          from Cons.hyps(1) [OF this, of page tok acc] obtain es where
            es: "trace (snd ?run) = trace ?w @ es"
              "json_file (snd ?run) = json_file ?w" "csv_file (snd ?run) = csv_file ?w"
              "list_ex fatal_get es \<longrightarrow> (\<exists>s. fst ?run = Inl (HTTPError s))"
            by blast
          have step: "fetch_loop page hdr acc w = ?run"
            using True gs Response 2 run Inr by (simp add: fetch_loop_401)
          have "trace (snd ?run) = trace w @ ((HttpGet page hdr g # CallRefresh # mid) @ es)"
            using es(1) mid(1) first by simp
          moreover have "list_ex fatal_get ((HttpGet page hdr g # CallRefresh # mid) @ es) =
              list_ex fatal_get es"
            using quiet by (auto simp: list_ex_iff)
          moreover have "json_file (snd ?run) = json_file w" "csv_file (snd ?run) = csv_file w"
            using es(2,3) files by simp_all
          ultimately show ?thesis
            unfolding step using es(4) by metis
        qed
      next
        case 3
        let ?w = "got page hdr w"
        have stop: ?thesis if "fetch_loop page hdr acc w = (res, ?w)"
          and "list_ex fatal_get [HttpGet page hdr g] \<longrightarrow> (\<exists>s. res = Inl (HTTPError s))" for res
          using that first by (metis fst_conv snd_conv got_simps(6,7))
        show ?thesis
        proof (cases "raise_for_status r")
          case (Inl e)
          then have "e = HTTPError (status_code r)"
            by (auto simp: raise_for_status_def split: if_splits)
          then show ?thesis
            using True gs Response 3 Inl by (intro stop) (auto simp: fetch_loop_page)
        next
          case (Inr u)
          then have quiet: "\<not> list_ex fatal_get [HttpGet page hdr g]"
            using Response by (auto simp: raise_for_status_def split: if_splits)
          show ?thesis
          proof (cases "body r")
            case None
            then show ?thesis
              using True gs Response 3 Inr quiet by (intro stop) (auto simp: fetch_loop_page)
          next
            case (Some data)
            show ?thesis
            proof (cases "truthy data")
              case False
              then show ?thesis
                using True gs Response 3 Inr Some quiet
                by (intro stop) (auto simp: fetch_loop_page)
            next
              case truthy: True
              show ?thesis
              proof (cases "hiking_activities data")
                case (Inl e)
                then show ?thesis
                  using True gs Response 3 Inr Some truthy quiet
                  by (intro stop) (auto simp: fetch_loop_page)
              next
                case hs: (Inr hs)
                let ?run = "fetch_loop (page + 1) hdr (acc @ hs) ?w"
                from Cons.hyps(1) [OF rest, of "page + 1" hdr "acc @ hs"] obtain es where
                  es: "trace (snd ?run) = trace ?w @ es"
                    "json_file (snd ?run) = json_file ?w" "csv_file (snd ?run) = csv_file ?w"
                    "list_ex fatal_get es \<longrightarrow> (\<exists>s. fst ?run = Inl (HTTPError s))"
                  by blast
                have step: "fetch_loop page hdr acc w = ?run"
                  using True gs Response 3 Inr Some truthy hs by (simp add: fetch_loop_page)
                have "trace (snd ?run) = trace w @ (HttpGet page hdr g # es)"
                  using es(1) first by simp
                moreover have "list_ex fatal_get (HttpGet page hdr g # es) = list_ex fatal_get es"
                  using quiet by simp
                moreover have "json_file (snd ?run) = json_file w" "csv_file (snd ?run) = csv_file w"
                  using es(2,3) by simp_all
                ultimately show ?thesis
                  unfolding step using es(4) by metis
              qed
            qed
          qed
        qed
      qed
    qed
  qed
qed

lemma pages_served_simps [simp]:
  "pages_served [] = []"
  "pages_served (ev # es) =
     (case page_of ev of None \<Rightarrow> pages_served es | Some pg \<Rightarrow> pg # pages_served es)"
  "pages_served (pre @ es) = pages_served pre @ pages_served es"
  by (simp_all add: pages_served_def map_filter_def split: option.splits)


























lemma got_token_file [simp]: "token_file (got page hdr w) = token_file w"
  by (simp add: got_def log_event_def)

lemma after_sleep_token_file [simp]: "token_file (after_sleep d w) = token_file w"
  by (simp add: after_sleep_def log_event_def)














lemma fetch_stops_at_ceiling:
  assumes "gets w = map page_reply pages @ rest" and "length pages = 50"
    and "\<forall>xs\<in>set pages. xs \<noteq> [] \<and> (\<forall>a\<in>set xs. payload_ok a)"
  shows "\<exists>w'. fetch_activities after_timestamp w = (Inr (concat (map expected_hikes pages)), w') \<and>
           gets w' = rest"
proof -
  have "1 + int (length pages) \<le> max_pages + 1"
    using assms(2) by (simp add: max_pages_def)
  from fetch_loop_full_pages [OF assms(1) this assms(3), of "ACCESS_TOKEN w" "[]"]
  obtain w' where w': "fetch_loop 1 (ACCESS_TOKEN w) [] w =
      fetch_loop (1 + int (length pages)) (ACCESS_TOKEN w)
        (concat (map expected_hikes pages)) w'" "gets w' = rest"
    by auto
  have "\<not> 1 + int (length pages) \<le> max_pages"
    using assms(2) by (simp add: max_pages_def)
  then show ?thesis
    using w' by (simp add: fetch_activities_def fetch_loop_done)
qed


section \<open>Claims\<close>




text \<open>
  C2. On a 401 response to a request for a page, when the refresh that follows returns a
  token, the events between the 401 and the next page request are those of that one call
  of \<^verbatim>\<open>refresh_access_token\<close> (one entry mark, no page request), and the next
  request asks for the same page with the token the refresh returned.
\<close>

theorem expired_token_refresh_and_retry:
  assumes "page \<le> max_pages" and "gets w = Response r # g2 # rest"
    and "status_code r = 401"
    and "refresh_access_token (got page hdr w) = (Inr tok, w2)"
  shows "(\<exists>es. new_events w (snd (fetch_loop page hdr acc w)) =
            HttpGet page hdr (Response r) # new_events (got page hdr w) w2 @
            HttpGet page tok g2 # es) \<and>
         count_list (new_events (got page hdr w) w2) CallRefresh = 1 \<and>
         \<not> list_ex is_get (new_events (got page hdr w) w2)"
proof -
  let ?w = "w2\<lparr>ACCESS_TOKEN := tok\<rparr>"
  from refresh_access_token_trace [OF assms(4)] obtain mid where
    mid: "trace w2 = trace (got page hdr w) @ CallRefresh # mid"
      "\<forall>ev\<in>set mid. token_traffic ev"
    by blast
  have new: "new_events (got page hdr w) w2 = CallRefresh # mid"
    using mid(1) by (rule new_events_append)
  have "CallRefresh \<notin> set mid"
    using mid(2) token_traffic_not_refresh by blast
  then have once: "count_list (new_events (got page hdr w) w2) CallRefresh = 1"
    using new by (simp add: count_list_0_iff)
  have no_get: "\<not> list_ex is_get (new_events (got page hdr w) w2)"
    using new mid(2) token_traffic_not_get by (auto simp: list_ex_iff)
  have step: "fetch_loop page hdr acc w = fetch_loop page tok acc ?w"
    using assms by (simp add: fetch_loop_401)
  have "gets ?w = g2 # rest"
    using refresh_access_token_gets [OF assms(4)] assms(2) by simp
  from fetch_loop_first_event [OF assms(1) this, of tok acc] obtain es where
    "trace (snd (fetch_loop page tok acc ?w)) = trace ?w @ HttpGet page tok g2 # es"
    by blast
  then have "trace (snd (fetch_loop page hdr acc w)) =
      trace w @ HttpGet page hdr (Response r) # (CallRefresh # mid) @ HttpGet page tok g2 # es"
    using step assms(2) mid(1) by simp
  then have "new_events w (snd (fetch_loop page hdr acc w)) =
      HttpGet page hdr (Response r) # (CallRefresh # mid) @ HttpGet page tok g2 # es"
    by (rule new_events_append)
  with new once no_get show ?thesis
    by simp
qed

theorem expired_token_refresh_and_retry_witness:
  "refresh_access_token
     (got 1 (JStr ''a1'') (fetch_world [Response expired, Response (page_response 200 (JArr []))])) =
     (Inr (JStr ''a2''),
      (fetch_world [Response (page_response 200 (JArr []))])
        \<lparr>ACCESS_TOKEN := JStr ''a2'', token_file := Some ''r2'', posts := [],
         trace := [HttpGet 1 (JStr ''a1'') (Response expired), CallRefresh,
                   HttpPost (RefreshToken ''r1'') (Response (token_response ''a2'' ''r2''))]\<rparr>) \<and>
   trace (snd (fetch_loop 1 (JStr ''a1'') []
     (fetch_world [Response expired, Response (page_response 200 (JArr []))]))) =
     [HttpGet 1 (JStr ''a1'') (Response expired), CallRefresh,
      HttpPost (RefreshToken ''r1'') (Response (token_response ''a2'' ''r2'')),
      HttpGet 1 (JStr ''a2'') (Response (page_response 200 (JArr [])))]"
proof -
  let ?w = "fetch_world [Response expired, Response (page_response 200 (JArr []))]"
  let ?w2 = "(fetch_world [Response (page_response 200 (JArr []))])
        \<lparr>ACCESS_TOKEN := JStr ''a2'', token_file := Some ''r2'', posts := [],
         trace := [HttpGet 1 (JStr ''a1'') (Response expired), CallRefresh,
                   HttpPost (RefreshToken ''r1'') (Response (token_response ''a2'' ''r2''))]\<rparr>"
  have run: "refresh_access_token (got 1 (JStr ''a1'') ?w) = (Inr (JStr ''a2''), ?w2)"
    by (simp add: fetch_world_def got_def token_response_def refresh_access_token_def
        load_refresh_token_def strip_def is_space_def log_event_def requests_post_def
        accept_tokens_def Let_def)
  have page: "(1 :: int) \<le> max_pages"
    by (simp add: max_pages_def)
  have script: "gets ?w = Response expired # Response (page_response 200 (JArr [])) # []"
    by (simp add: fetch_world_def)
  have status: "status_code expired = 401"
    by (simp add: expired_def)
  have new: "new_events (got 1 (JStr ''a1'') ?w) ?w2 =
      [CallRefresh, HttpPost (RefreshToken ''r1'') (Response (token_response ''a2'' ''r2''))]"
    by (simp add: new_events_def fetch_world_def got_def log_event_def)
  have empty: "trace ?w = []"
    by (simp add: fetch_world_def)
  from expired_token_refresh_and_retry [OF page script status run, of "[]"] obtain es where
    es: "trace (snd (fetch_loop 1 (JStr ''a1'') [] ?w)) =
      HttpGet 1 (JStr ''a1'') (Response expired) #
      [CallRefresh, HttpPost (RefreshToken ''r1'') (Response (token_response ''a2'' ''r2''))] @
      HttpGet 1 (JStr ''a2'') (Response (page_response 200 (JArr []))) # es"
    unfolding new new_events_Nil [OF empty] by blast
  have "trace (snd (fetch_loop 1 (JStr ''a1'') [] ?w)) =
     [HttpGet 1 (JStr ''a1'') (Response expired), CallRefresh,
      HttpPost (RefreshToken ''r1'') (Response (token_response ''a2'' ''r2'')),
      HttpGet 1 (JStr ''a2'') (Response (page_response 200 (JArr [])))]"
    using run page status
    by (simp add: fetch_loop_401 fetch_loop_page fetch_world_def page_response_def
        raise_for_status_def got_def log_event_def expired_def max_pages_def)
  with run es show ?thesis
    by simp
qed

text \<open>
  C3. When no stored refresh token exists, \<^verbatim>\<open>refresh_access_token\<close> does exactly what
  \<^verbatim>\<open>reauthorize_app\<close> does from the same state and returns its access token; the run holds
  exactly one call of \<^verbatim>\<open>reauthorize_app\<close> and no token request that presents a refresh
  token.
\<close>

theorem refresh_without_stored_token:
  assumes "token_file w = None"
  shows "refresh_access_token w = reauthorize_app (log_event CallRefresh w) \<and>
         count_list (new_events w (snd (refresh_access_token w))) CallReauthorize = 1 \<and>
         \<not> list_ex is_refresh_post (new_events w (snd (refresh_access_token w)))"
proof -
  let ?w = "log_event CallRefresh w"
  have delegate: "refresh_access_token w = reauthorize_app ?w"
    using assms by (simp add: refresh_access_token_def load_refresh_token_def log_event_def)
  obtain res w' where run: "reauthorize_app ?w = (res, w')"
    by (cases "reauthorize_app ?w")
  from reauthorize_app_trace [OF run] obtain es where
    es: "trace w' = trace ?w @ CallReauthorize # es"
      "\<forall>ev\<in>set es. token_traffic ev \<and> \<not> is_refresh_post ev" "CallReauthorize \<notin> set es"
    by blast
  have "trace w' = trace w @ CallRefresh # CallReauthorize # es"
    using es(1) by (simp add: log_event_def)
  then have new: "new_events w w' = CallRefresh # CallReauthorize # es"
    by (rule new_events_append)
  have "count_list (new_events w w') CallReauthorize = 1"
    using new es(3) by (simp add: count_list_0_iff)
  moreover have "\<not> list_ex is_refresh_post (new_events w w')"
    using new es(2) by (auto simp: list_ex_iff)
  ultimately show ?thesis
    using delegate run by simp
qed

theorem refresh_without_stored_token_witness:
  "token_file first_world = None \<and>
   refresh_access_token first_world = reauthorize_app (log_event CallRefresh first_world) \<and>
   fst (refresh_access_token first_world) = Inr (JStr ''a1'') \<and>
   count_list (new_events first_world (snd (refresh_access_token first_world))) CallReauthorize = 1 \<and>
   \<not> list_ex is_refresh_post (new_events first_world (snd (refresh_access_token first_world)))"
proof -
  have none: "token_file first_world = None"
    by (simp add: first_world_def)
  have "fst (refresh_access_token first_world) = Inr (JStr ''a1'')"
    by (simp add: first_world_def token_response_def refresh_access_token_def
        load_refresh_token_def log_event_def reauthorize_app_def requests_post_def
        raise_for_status_def accept_tokens_def Let_def)
  with none refresh_without_stored_token [OF none] show ?thesis
    by blast
qed





text \<open>
  C6. If, during one call of \<^verbatim>\<open>main\<close>, a page request is answered with an error status
  (4xx or 5xx, the statuses on which \<^verbatim>\<open>raise_for_status\<close> raises) other than 429 and
  401, then \<^verbatim>\<open>main\<close> catches an HTTPError and returns, so the scheduler loop goes on,
  and both snapshot files are what they were before the call: nothing accumulated in the
  cycle is written.
\<close>

theorem fatal_status_abandons_cycle:
  assumes "main json_readback csv_readback after_timestamp w = (outcome, w')"
    and "list_ex fatal_get (new_events w w')"
  shows "(\<exists>s. outcome = Caught (HTTPError s)) \<and>
         json_file w' = json_file w \<and> csv_file w' = csv_file w"
proof -
  obtain res1 w1 where refresh: "refresh_access_token w = (res1, w1)"
    by (cases "refresh_access_token w")
  from refresh_access_token_trace [OF refresh] obtain mid where
    mid: "trace w1 = trace w @ CallRefresh # mid" "\<forall>ev\<in>set mid. token_traffic ev"
    by blast
  have quiet: "\<not> list_ex fatal_get (CallRefresh # mid)"
    using mid(2) token_traffic_not_fatal by (auto simp: list_ex_iff)
  have files1: "json_file w1 = json_file w" "csv_file w1 = csv_file w"
    using refresh_access_token_files [OF refresh] by simp_all
  show ?thesis
  proof (cases res1)
    case (Inl e)
    then have "w' = w1"
      using assms(1) refresh by (simp add: main_def main_try_def)
    then have "new_events w w' = CallRefresh # mid"
      using mid(1) by (simp add: new_events_def)
    with assms(2) quiet show ?thesis by simp
  next
    case (Inr tok)
    let ?w = "w1\<lparr>ACCESS_TOKEN := tok\<rparr>"
    let ?run = "fetch_loop 1 tok [] ?w"
    from fetch_loop_fatal [of 1 tok "[]" ?w] obtain es where
      es: "trace (snd ?run) = trace ?w @ es"
        "json_file (snd ?run) = json_file ?w" "csv_file (snd ?run) = csv_file ?w"
        "list_ex fatal_get es \<longrightarrow> (\<exists>s. fst ?run = Inl (HTTPError s))"
      by blast
    have trace_run: "trace (snd ?run) = trace w @ (CallRefresh # mid) @ es"
      using es(1) mid(1) by simp
    have unfolded: "main_try json_readback csv_readback after_timestamp w =
        (case ?run of
           (Inl e, w2) \<Rightarrow> (Inl e, w2)
         | (Inr activities, w2) \<Rightarrow>
             (Inr (), write_activities_to_csv csv_readback activities
                (w2\<lparr>json_file := Some (json_readback activities)\<rparr>)))"
      using refresh Inr
      by (simp add: main_try_def fetch_activities_def Let_def split: prod.splits sum.splits)
    have "trace w' = trace (snd ?run)"
      using assms(1) unfolded
      by (auto simp: main_def write_activities_to_csv_def split: prod.splits sum.splits)
    then have "new_events w w' = (CallRefresh # mid) @ es"
      using trace_run by (simp add: new_events_def)
    then have "list_ex fatal_get es"
      using assms(2) quiet by (auto simp: list_ex_iff)
    with es(4) obtain s where s: "fst ?run = Inl (HTTPError s)"
      by blast
    then have "main json_readback csv_readback after_timestamp w = (Caught (HTTPError s), snd ?run)"
      using unfolded by (cases ?run) (simp add: main_def)
    with assms(1) have "outcome = Caught (HTTPError s)" "w' = snd ?run"
      by simp_all
    with es(2,3) files1 show ?thesis
      by simp
  qed
qed

theorem fatal_status_abandons_cycle_witness:
  "fst (main (\<lambda>acts. Reads JNull) (\<lambda>acts. Reads JNull) 1735689600 failing_world) =
     Caught (HTTPError 500) \<and>
   json_file (snd (main (\<lambda>acts. Reads JNull) (\<lambda>acts. Reads JNull) 1735689600 failing_world)) = None \<and>
   csv_file (snd (main (\<lambda>acts. Reads JNull) (\<lambda>acts. Reads JNull) 1735689600 failing_world)) = None"
proof -
  let ?m = "main (\<lambda>acts. Reads JNull) (\<lambda>acts. Reads JNull) 1735689600 failing_world"
  have ok: "\<forall>a\<in>set example_page. payload_ok a" "example_page \<noteq> []"
    by (simp_all add: example_page_def)
  have run: "?m = (Caught (HTTPError 500),
      failing_world\<lparr>ACCESS_TOKEN := JStr ''a2'', token_file := Some ''r2'', gets := [], posts := [],
        trace := [CallRefresh, HttpPost (RefreshToken ''r1'') (Response (token_response ''a2'' ''r2'')),
                  HttpGet 1 (JStr ''a2'') (page_reply example_page),
                  HttpGet 2 (JStr ''a2'') (Response (page_response 500 (JStr ''down'')))]\<rparr>)"
    using ok
    by (simp add: main_def main_try_def fetch_activities_def failing_world_def fetch_world_def
        token_response_def refresh_access_token_def load_refresh_token_def strip_def
        is_space_def log_event_def requests_post_def accept_tokens_def Let_def
        fetch_loop_page page_reply_def page_response_def raise_for_status_def got_def
        max_pages_def comprehension_ok)
  have "list_ex fatal_get (new_events failing_world (snd ?m))"
    unfolding run by (simp add: new_events_def failing_world_def fetch_world_def page_reply_def
        page_response_def)
  from fatal_status_abandons_cycle [OF surjective_pairing this] run show ?thesis
    by (simp add: failing_world_def fetch_world_def)
qed



text \<open>
  C8 (amended). When its snapshot file does not exist, each endpoint answers 404 with a
  JSON object that has an \<^verbatim>\<open>error\<close> key. When the file exists and reading it succeeds,
  the endpoint answers 200 with what was read.
\<close>

theorem snapshot_endpoints:
  "(csv_file w = None \<longrightarrow>
      get_activities w = Inr (error_body ''Activities file not found.'', 404)) \<and>
   (json_file w = None \<longrightarrow>
      get_raw_activities w = Inr (error_body ''Raw activities file not found.'', 404)) \<and>
   (\<forall>msg. subscript (error_body msg) ''error'' = Inr (JStr msg)) \<and>
   (\<forall>rows. csv_file w = Some (Reads rows) \<longrightarrow> get_activities w = Inr (rows, 200)) \<and>
   (\<forall>doc. json_file w = Some (Reads doc) \<longrightarrow> get_raw_activities w = Inr (doc, 200))"
  by (simp add: get_activities_def get_raw_activities_def error_body_def)

theorem snapshot_endpoints_witness:
  "get_activities served_world = Inr (JArr [], 200) \<and>
   get_raw_activities served_world = Inr (error_body ''Raw activities file not found.'', 404) \<and>
   subscript (error_body ''Raw activities file not found.'') ''error'' =
     Inr (JStr ''Raw activities file not found.'')"
proof -
  have "csv_file served_world = Some (Reads (JArr []))" and "json_file served_world = None"
    by (simp_all add: served_world_def fetch_world_def)
  with snapshot_endpoints [of served_world] show ?thesis
    by blast
qed

text \<open>
  C8 as stated fails for a file that exists and cannot be read: \<^verbatim>\<open>json.load\<close> raises, the
  handler catches only FileNotFoundError, and no 200 is returned.
\<close>

theorem existing_file_without_200:
  "json_file truncated_world = Some (Raises JSONDecodeError) \<and>
   get_raw_activities truncated_world = Inl JSONDecodeError"
  by (simp add: truncated_world_def fetch_world_def get_raw_activities_def)

text \<open>
  C9. Every call of \<^verbatim>\<open>reauthorize_app\<close> or \<^verbatim>\<open>refresh_access_token\<close> that returns an
  access token ends with the token response that issued it, and the token file in the
  state it returns holds the refresh token of that response. And such calls do return:
  on a token response that carries an access token and a string as refresh token,
  \<^verbatim>\<open>reauthorize_app\<close> (given a code on the console and a status that is no error) and
  \<^verbatim>\<open>refresh_access_token\<close> (given a stored token and status 200) return the access token
  from a state whose token file holds the new refresh token.
\<close>

theorem new_refresh_token_stored:
  "(\<forall>tok' w'. reauthorize_app w = (Inr tok', w') \<longrightarrow> stored_issue w w' tok') \<and>
   (\<forall>tok' w'. refresh_access_token w = (Inr tok', w') \<longrightarrow> stored_issue w w' tok') \<and>
   (posts w = Response r # ps \<and> body r = Some tokens \<and>
    subscript tokens ''access_token'' = Inr tok \<and>
    subscript tokens ''refresh_token'' = Inr (JStr rt) \<longrightarrow>
      (inputs w = code # ins \<and> raise_for_status r = Inr () \<longrightarrow>
         (\<exists>w'. reauthorize_app w = (Inr tok, w') \<and> token_file w' = Some rt)) \<and>
      (token_file w = Some s \<and> strip s \<noteq> [] \<and> status_code r = 200 \<longrightarrow>
         (\<exists>w'. refresh_access_token w = (Inr tok, w') \<and> token_file w' = Some rt)))"
proof -
  have stored: "\<forall>tok' w'. reauthorize_app w = (Inr tok', w') \<longrightarrow> stored_issue w w' tok'"
      "\<forall>tok' w'. refresh_access_token w = (Inr tok', w') \<longrightarrow> stored_issue w w' tok'"
    using reauthorize_app_ok refresh_access_token_ok by blast+
  have reauthorized: "\<exists>w'. reauthorize_app w = (Inr tok, w') \<and> token_file w' = Some rt"
    if "posts w = Response r # ps" "body r = Some tokens"
      "subscript tokens ''access_token'' = Inr tok"
      "subscript tokens ''refresh_token'' = Inr (JStr rt)"
      "inputs w = code # ins" "raise_for_status r = Inr ()"
    using that
    by (simp add: reauthorize_app_def log_event_def requests_post_def accept_tokens_def Let_def)
  have refreshed: "\<exists>w'. refresh_access_token w = (Inr tok, w') \<and> token_file w' = Some rt"
    if "posts w = Response r # ps" "body r = Some tokens"
      "subscript tokens ''access_token'' = Inr tok"
      "subscript tokens ''refresh_token'' = Inr (JStr rt)"
      "token_file w = Some s" "strip s \<noteq> []" "status_code r = 200"
    using that
    by (simp add: refresh_access_token_def load_refresh_token_def log_event_def
        requests_post_def accept_tokens_def Let_def)
  from stored reauthorized refreshed show ?thesis
    by blast
qed

theorem new_refresh_token_stored_witness:
  "reauthorize_app first_world =
     (Inr (JStr ''a1''),
      first_world\<lparr>ACCESS_TOKEN := JStr ''a1'', token_file := Some ''r1'', posts := [],
        inputs := [],
        trace := [CallReauthorize,
                  HttpPost (AuthorizationCode ''code'') (Response (token_response ''a1'' ''r1''))]\<rparr>) \<and>
   stored_issue first_world (snd (reauthorize_app first_world)) (JStr ''a1'') \<and>
   refresh_access_token renewal_world =
     (Inr (JStr ''a2''),
      renewal_world\<lparr>ACCESS_TOKEN := JStr ''a2'', token_file := Some ''r2'', posts := [],
        trace := [CallRefresh, HttpPost (RefreshToken ''r0'') (Response (token_response ''a2'' ''r2''))]\<rparr>) \<and>
   stored_issue renewal_world (snd (refresh_access_token renewal_world)) (JStr ''a2'')"
proof -
  have first: "posts first_world = Response (token_response ''a1'' ''r1'') # [] \<and>
      body (token_response ''a1'' ''r1'') =
        Some (JObj [(''access_token'', JStr ''a1''), (''refresh_token'', JStr ''r1'')]) \<and>
      subscript (JObj [(''access_token'', JStr ''a1''), (''refresh_token'', JStr ''r1'')])
        ''access_token'' = Inr (JStr ''a1'') \<and>
      subscript (JObj [(''access_token'', JStr ''a1''), (''refresh_token'', JStr ''r1'')])
        ''refresh_token'' = Inr (JStr ''r1'')"
      "inputs first_world = ''code'' # [] \<and>
       raise_for_status (token_response ''a1'' ''r1'') = Inr ()"
    by (simp_all add: first_world_def token_response_def raise_for_status_def)
  have later: "posts renewal_world = Response (token_response ''a2'' ''r2'') # [] \<and>
      body (token_response ''a2'' ''r2'') =
        Some (JObj [(''access_token'', JStr ''a2''), (''refresh_token'', JStr ''r2'')]) \<and>
      subscript (JObj [(''access_token'', JStr ''a2''), (''refresh_token'', JStr ''r2'')])
        ''access_token'' = Inr (JStr ''a2'') \<and>
      subscript (JObj [(''access_token'', JStr ''a2''), (''refresh_token'', JStr ''r2'')])
        ''refresh_token'' = Inr (JStr ''r2'')"
      "token_file renewal_world = Some ''r0'' \<and> strip ''r0'' \<noteq> [] \<and>
       status_code (token_response ''a2'' ''r2'') = 200"
    by (simp_all add: renewal_world_def first_world_def token_response_def strip_def
        is_space_def)
  from new_refresh_token_stored [of first_world "token_response ''a1'' ''r1''" "[]"
      "JObj [(''access_token'', JStr ''a1''), (''refresh_token'', JStr ''r1'')]"
      "JStr ''a1''" "''r1''" "''code''" "[]"] first
  obtain w1 where w1: "reauthorize_app first_world = (Inr (JStr ''a1''), w1)"
      "token_file w1 = Some ''r1''" "stored_issue first_world w1 (JStr ''a1'')"
    by blast
  from new_refresh_token_stored [of renewal_world "token_response ''a2'' ''r2''" "[]"
      "JObj [(''access_token'', JStr ''a2''), (''refresh_token'', JStr ''r2'')]"
      "JStr ''a2''" "''r2''" _ _ "''r0''"] later
  obtain w2 where w2: "refresh_access_token renewal_world = (Inr (JStr ''a2''), w2)"
      "token_file w2 = Some ''r2''" "stored_issue renewal_world w2 (JStr ''a2'')"
    by blast
  have run1: "reauthorize_app first_world =
     (Inr (JStr ''a1''),
      first_world\<lparr>ACCESS_TOKEN := JStr ''a1'', token_file := Some ''r1'', posts := [],
        inputs := [],
        trace := [CallReauthorize,
                  HttpPost (AuthorizationCode ''code'') (Response (token_response ''a1'' ''r1''))]\<rparr>)"
    by (simp add: first_world_def token_response_def reauthorize_app_def log_event_def
        requests_post_def raise_for_status_def accept_tokens_def Let_def)
  have run2: "refresh_access_token renewal_world =
     (Inr (JStr ''a2''),
      renewal_world\<lparr>ACCESS_TOKEN := JStr ''a2'', token_file := Some ''r2'', posts := [],
        trace := [CallRefresh, HttpPost (RefreshToken ''r0'') (Response (token_response ''a2'' ''r2''))]\<rparr>)"
    by (simp add: renewal_world_def first_world_def token_response_def refresh_access_token_def
        load_refresh_token_def strip_def is_space_def log_event_def requests_post_def
        accept_tokens_def Let_def)
  from w1(1,3) w2(1,3) run1 run2 show ?thesis
    by simp
qed

text \<open>
  C10. \<^verbatim>\<open>load_refresh_token\<close> returns the file contents without their leading and
  trailing whitespace: the contents are a run of whitespace, the loaded string, and a run
  of whitespace, and the loaded string neither starts nor ends with whitespace. When the
  stripped contents are empty, \<^verbatim>\<open>refresh_access_token\<close> does what it does without a
  token file: it does exactly what \<^verbatim>\<open>reauthorize_app\<close> does from the same state, and the
  run holds no token request that presents a refresh token.
\<close>

theorem blank_token_file_like_missing:
  assumes "token_file w = Some s"
  shows "load_refresh_token w = Some (strip s) \<and>
         (\<exists>pre suf. s = pre @ strip s @ suf \<and>
            (\<forall>c\<in>set pre. is_space c) \<and> (\<forall>c\<in>set suf. is_space c)) \<and>
         (strip s \<noteq> [] \<longrightarrow> \<not> is_space (hd (strip s)) \<and> \<not> is_space (last (strip s))) \<and>
         (strip s = [] \<longrightarrow>
            refresh_access_token w = reauthorize_app (log_event CallRefresh w) \<and>
            \<not> list_ex is_refresh_post (new_events w (snd (refresh_access_token w))))"
proof -
  let ?w = "log_event CallRefresh w"
  have load: "load_refresh_token w = Some (strip s)"
    using assms by (simp add: load_refresh_token_def)
  have blank: "refresh_access_token w = reauthorize_app ?w \<and>
      \<not> list_ex is_refresh_post (new_events w (snd (refresh_access_token w)))"
    if "strip s = []"
  proof -
    have delegate: "refresh_access_token w = reauthorize_app ?w"
      using assms that
      by (simp add: refresh_access_token_def load_refresh_token_def log_event_def)
    obtain res w' where run: "reauthorize_app ?w = (res, w')"
      by (cases "reauthorize_app ?w")
    from reauthorize_app_trace [OF run] obtain es where
      es: "trace w' = trace ?w @ CallReauthorize # es"
        "\<forall>ev\<in>set es. token_traffic ev \<and> \<not> is_refresh_post ev"
      by blast
    have "trace w' = trace w @ CallRefresh # CallReauthorize # es"
      using es(1) by (simp add: log_event_def)
    then have "new_events w w' = CallRefresh # CallReauthorize # es"
      by (rule new_events_append)
    then have "\<not> list_ex is_refresh_post (new_events w w')"
      using es(2) by (auto simp: list_ex_iff)
    then show ?thesis
      using delegate run by simp
  qed
  from load strip_decompose [of s] strip_ends [of s] blank show ?thesis
    by blast
qed

theorem blank_token_file_like_missing_witness:
  "token_file blank_file_world = Some [CHR '' '', CHR 0x0A] \<and>
   strip [CHR '' '', CHR 0x0A] = [] \<and>
   load_refresh_token blank_file_world = Some [] \<and>
   refresh_access_token blank_file_world = reauthorize_app (log_event CallRefresh blank_file_world) \<and>
   \<not> list_ex is_refresh_post
      (new_events blank_file_world (snd (refresh_access_token blank_file_world)))"
proof -
  have stored: "token_file blank_file_world = Some [CHR '' '', CHR 0x0A]"
    by (simp add: blank_file_world_def first_world_def)
  have blank: "strip [CHR '' '', CHR 0x0A] = []"
    by (simp add: strip_def is_space_def)
  have loaded: "load_refresh_token blank_file_world = Some []"
    using blank_token_file_like_missing [OF stored] blank by simp
  have "refresh_access_token blank_file_world =
          reauthorize_app (log_event CallRefresh blank_file_world) \<and>
        \<not> list_ex is_refresh_post
           (new_events blank_file_world (snd (refresh_access_token blank_file_world)))"
    using blank_token_file_like_missing [OF stored] blank by blast
  with stored blank loaded show ?thesis
    by blast
qed

end
